theory Spec2Isabelle
  imports Main "HOL-Library.AList" "HOL-Library.Sublist"
begin

section \<open>Rate limiter (src/src/middleware/rateLimiter.ts)\<close>

text \<open>
  Times are milliseconds as returned by \<open>Date.now()\<close>; every function that reads the
  clock takes the reading as its argument \<open>now\<close>. Counters are JavaScript numbers that
  only ever hold small non-negative integers (they start at 0, are incremented by 1 and are
  never incremented beyond the limits), so they are natural numbers here.
\<close>

record RateLimitEntry =
  count :: nat
  resetTime :: int
  burstCount :: nat
  burstResetTime :: int

definition maxRequests :: nat where
  "maxRequests = 10"

definition windowMs :: int where
  "windowMs = 60 * 1000"

definition burstMax :: nat where
  "burstMax = 5"

definition burstWindowMs :: int where
  "burstWindowMs = 10 * 1000"

text \<open>
  \<open>rateLimitStore\<close> is a JavaScript \<open>Map\<close>: keys are unique and iteration follows insertion
  order. It is an association list whose keys are kept distinct; \<open>map_of\<close> is \<open>Map.get\<close>,
  \<open>AList.update\<close> is \<open>Map.set\<close> (replaces in place, otherwise appends).
\<close>

type_synonym rateLimitStore = "(string \<times> RateLimitEntry) list"

text \<open>What the middleware does with the request: call \<open>next()\<close>, or answer 429 with a
  message and the \<open>retryAfter\<close> field.\<close>

datatype limiter_result = Next | TooManyRequests string int

text \<open>\<open>req.ip || 'unknown'\<close>: an undefined or empty address becomes \<open>'unknown'\<close>.\<close>

definition clientIdOf :: "string option \<Rightarrow> string" where
  "clientIdOf ip = (case ip of None \<Rightarrow> ''unknown'' | Some a \<Rightarrow> if a = [] then ''unknown'' else a)"

text \<open>\<open>Math.ceil(ms / 1000)\<close> on an integer number of milliseconds.\<close>

definition ceilSeconds :: "int \<Rightarrow> int" where
  "ceilSeconds ms = - ((- ms) div 1000)"

definition newEntry :: "int \<Rightarrow> RateLimitEntry" where
  "newEntry now = \<lparr>count = 0, resetTime = now + windowMs,
                    burstCount = 0, burstResetTime = now + burstWindowMs\<rparr>"

text \<open>Lines 39-48: the two lazy window resets, in the order of the source.\<close>

definition resetWindows :: "int \<Rightarrow> RateLimitEntry \<Rightarrow> RateLimitEntry" where
  "resetWindows now entry =
     (let entry1 = (if now > resetTime entry
                    then entry\<lparr>count := 0, resetTime := now + windowMs\<rparr> else entry);
          entry2 = (if now > burstResetTime entry1
                    then entry1\<lparr>burstCount := 0, burstResetTime := now + burstWindowMs\<rparr>
                    else entry1)
      in entry2)"

text \<open>Lines 50-72 on the entry object: burst check, sustained check, increments. The entry
  is a shared object held by the store, so every mutation is returned.\<close>

definition admit :: "int \<Rightarrow> RateLimitEntry \<Rightarrow> limiter_result \<times> RateLimitEntry" where
  "admit now entry =
     (if burstCount entry \<ge> burstMax then
        (TooManyRequests ''Too many requests in a short time. Please try again later.''
           (ceilSeconds (burstResetTime entry - now)), entry)
      else if count entry \<ge> maxRequests then
        (TooManyRequests ''Maximum requests per minute exceeded. Please try again later.''
           (ceilSeconds (resetTime entry - now)), entry)
      else (Next, entry\<lparr>count := count entry + 1, burstCount := burstCount entry + 1\<rparr>))"

definition rateLimiter :: "string \<Rightarrow> int \<Rightarrow> rateLimitStore \<Rightarrow> limiter_result \<times> rateLimitStore" where
  "rateLimiter clientId now store =
     (let entry = (case map_of store clientId of
                     None \<Rightarrow> newEntry now
                   | Some e \<Rightarrow> e);
          (res, entry') = admit now (resetWindows now entry)
      in (res, AList.update clientId entry' store))"

text \<open>\<open>cleanupRateLimitStore\<close>: the loop over \<open>rateLimitStore.entries()\<close>, deleting the
  current key when both reset times are strictly in the past.\<close>

fun cleanupLoop :: "int \<Rightarrow> (string \<times> RateLimitEntry) list \<Rightarrow> rateLimitStore \<Rightarrow> rateLimitStore" where
  "cleanupLoop now [] store = store"
| "cleanupLoop now ((key, entry) # rest) store =
     cleanupLoop now rest
       (if now > resetTime entry \<and> now > burstResetTime entry
        then AList.delete key store else store)"

definition cleanupRateLimitStore :: "int \<Rightarrow> rateLimitStore \<Rightarrow> rateLimitStore" where
  "cleanupRateLimitStore now store = cleanupLoop now store store"

text \<open>A sequence of requests, each a client identity and the clock reading at which the
  middleware runs for it; the middleware is synchronous, so requests are served one after
  the other.\<close>

fun serveAll :: "(string \<times> int) list \<Rightarrow> rateLimitStore \<Rightarrow> (string \<times> limiter_result) list \<times> rateLimitStore" where
  "serveAll [] store = ([], store)"
| "serveAll ((clientId, now) # reqs) store =
     (let (res, store') = rateLimiter clientId now store;
          (ress, store'') = serveAll reqs store'
      in ((clientId, res) # ress, store''))"

text \<open>Bookkeeping for runs: the decisions taken for the requests of one client at given
  clock readings, the decisions a mixed run took for one client, and the clock readings of
  one client's requests in a mixed run.\<close>

definition decisions :: "string \<Rightarrow> int list \<Rightarrow> rateLimitStore \<Rightarrow> limiter_result list" where
  "decisions c ts store = map snd (fst (serveAll (map (Pair c) ts) store))"

definition decisionsFor :: "string \<Rightarrow> (string \<times> limiter_result) list \<Rightarrow> limiter_result list" where
  "decisionsFor c ress = map snd (filter (\<lambda>(c', r). c' = c) ress)"

definition timesOf :: "string \<Rightarrow> (string \<times> int) list \<Rightarrow> int list" where
  "timesOf c reqs = map snd (filter (\<lambda>(c', t). c' = c) reqs)"

text \<open>
  \<open>burstSpaced B b ts\<close>: the requests at times \<open>ts\<close> are spread so that none of them meets a
  full burst window, where the current burst window ends at \<open>B\<close> and has taken \<open>b\<close> requests.
  This is how "spaced beyond the burst window" is read: at most \<open>burstMax\<close> requests fall
  into any one burst window.
\<close>

fun burstSpaced :: "int \<Rightarrow> nat \<Rightarrow> int list \<Rightarrow> bool" where
  "burstSpaced B b [] = True"
| "burstSpaced B b (t # ts) =
     (if t > B then burstSpaced (t + burstWindowMs) 1 ts
      else b < burstMax \<and> burstSpaced B (Suc b) ts)"


section \<open>Middleware stack of the application (src/unnamed/part_005, lines 70-76)\<close>

text \<open>
  \<open>app.use(rateLimiter)\<close> mounts the limiter on every path;
  \<open>app.use('/auth', rateLimiter, authRoutes)\<close> mounts it a second time, followed by the
  auth router, on the paths under \<open>/auth\<close>. Express runs the layers in the order of
  registration; a layer mounted on a path runs when the request path is that path or
  continues it after a \<open>/\<close>; \<open>path\<close> is the path of the request's URL, without the query. The layers registered before the limiter (\<open>cors\<close> and the
  body parsers) either hand the request on unchanged or end it themselves, so the stack
  starts at the limiter. A router ends the dispatch: what it answers plays no role for the
  limiter's state.

  A request carries its own clock: \<open>clock req k\<close> is what \<open>Date.now()\<close> returns in the
  \<open>k\<close>-th run of the limiter for this request.
\<close>

datatype handler = RateLimiterMw | AuthRoutes | UserRoutes | CacheRoutes | HealthCheck

datatype mount = AllPaths | Mounted string | ExactGet string

record request =
  ip :: "string option"
  getMethod :: bool
  path :: string
  clock :: "nat \<Rightarrow> int"

text \<open>
  Express compares paths without regard to the case of letters and lets a trailing \<open>/\<close>
  pass (\<open>case sensitive routing\<close> and \<open>strict routing\<close> are off unless set, and the
  application sets neither). The mount paths of the application are in lower case, so the
  request path is brought to lower case before it is compared.
\<close>

definition lowerChar :: "char \<Rightarrow> char" where
  "lowerChar c =
     (case map_of (zip ''ABCDEFGHIJKLMNOPQRSTUVWXYZ'' ''abcdefghijklmnopqrstuvwxyz'') c of
        None \<Rightarrow> c
      | Some l \<Rightarrow> l)"

definition lowerPath :: "string \<Rightarrow> string" where
  "lowerPath p = map lowerChar p"

definition mountMatches :: "mount \<Rightarrow> request \<Rightarrow> bool" where
  "mountMatches m req =
     (case m of
        AllPaths \<Rightarrow> True
      | Mounted p \<Rightarrow>
          lowerPath (path req) = p \<or> prefix (p @ ''/'') (lowerPath (path req))
      | ExactGet p \<Rightarrow>
          getMethod req \<and> (lowerPath (path req) = p \<or> lowerPath (path req) = p @ ''/''))"

definition appStack :: "(mount \<times> handler) list" where
  "appStack =
     [(AllPaths, RateLimiterMw),
      (Mounted ''/auth'', RateLimiterMw), (Mounted ''/auth'', AuthRoutes),
      (Mounted ''/users'', UserRoutes),
      (Mounted ''/cache'', CacheRoutes),
      (ExactGet ''/health'', HealthCheck)]"

datatype outcome = Reached handler | Blocked limiter_result | Unrouted

fun dispatch :: "(mount \<times> handler) list \<Rightarrow> request \<Rightarrow> nat \<Rightarrow> rateLimitStore \<Rightarrow> outcome \<times> rateLimitStore" where
  "dispatch [] req k store = (Unrouted, store)"
| "dispatch ((m, h) # layers) req k store =
     (if \<not> mountMatches m req then dispatch layers req k store
      else if h = RateLimiterMw then
        (case rateLimiter (clientIdOf (ip req)) (clock req k) store of
           (Next, store') \<Rightarrow> dispatch layers req (Suc k) store'
         | (TooManyRequests msg r, store') \<Rightarrow> (Blocked (TooManyRequests msg r), store'))
      else (Reached h, store))"

text \<open>Requests are handled one after the other: the whole chain for one request is
  synchronous.\<close>

fun serveHttp :: "request list \<Rightarrow> rateLimitStore \<Rightarrow> outcome list \<times> rateLimitStore" where
  "serveHttp [] store = ([], store)"
| "serveHttp (req # reqs) store =
     (let (out, store') = dispatch appStack req 0 store;
          (outs, store'') = serveHttp reqs store'
      in (out # outs, store''))"

definition underAuth :: "request \<Rightarrow> bool" where
  "underAuth req = mountMatches (Mounted ''/auth'') req"

text \<open>The clock readings of the two limiter runs of each request of a list.\<close>

definition readings :: "request list \<Rightarrow> int list" where
  "readings reqs = concat (map (\<lambda>r. [clock r 0, clock r (Suc 0)]) reqs)"

text \<open>A login request of client 10.0.0.1 whose limiter runs all read the clock at \<open>t\<close>.\<close>

definition authReq :: "int \<Rightarrow> request" where
  "authReq t = \<lparr>ip = Some ''10.0.0.1'', getMethod = False, path = ''/auth/login'', clock = (\<lambda>k. t)\<rparr>"

section \<open>Users and their JSON rendering (\<open>types\<close>: src/unnamed/part_002; \<open>getUserResponse\<close>: src/unnamed/part_000)\<close>

text \<open>\<open>password\<close> and \<open>createdAt\<close> are optional properties.\<close>

record User =
  user_id :: int
  user_name :: string
  user_email :: string
  user_password :: "string option"
  user_createdAt :: "string option"

record UserResponse =
  resp_id :: int
  resp_name :: string
  resp_email :: string
  resp_createdAt :: "string option"

text \<open>\<open>getUserResponse\<close>: \<open>const { password, ...userResponse } = user\<close>.\<close>

definition getUserResponse :: "User \<Rightarrow> UserResponse" where
  "getUserResponse user =
     \<lparr>resp_id = user_id user, resp_name = user_name user, resp_email = user_email user,
      resp_createdAt = user_createdAt user\<rparr>"

text \<open>
  The body that \<open>res.json\<close> sends: the object's own properties, in the order in which the
  object holds them, an undefined property left out.
\<close>

datatype json = JNumber int | JString string

definition optionalProperty :: "string \<Rightarrow> string option \<Rightarrow> (string \<times> json) list" where
  "optionalProperty k v = (case v of None \<Rightarrow> [] | Some s \<Rightarrow> [(k, JString s)])"

definition jsonOfUser :: "User \<Rightarrow> (string \<times> json) list" where
  "jsonOfUser u =
     [(''id'', JNumber (user_id u)), (''name'', JString (user_name u)),
      (''email'', JString (user_email u))]
     @ optionalProperty ''password'' (user_password u)
     @ optionalProperty ''createdAt'' (user_createdAt u)"

definition jsonOfUserResponse :: "UserResponse \<Rightarrow> (string \<times> json) list" where
  "jsonOfUserResponse r =
     [(''id'', JNumber (resp_id r)), (''name'', JString (resp_name r)),
      (''email'', JString (resp_email r))]
     @ optionalProperty ''createdAt'' (resp_createdAt r)"

section \<open>The cache (\<open>config/cache\<close>: src/unnamed/part_001)\<close>

subsection \<open>The \<open>lru-cache\<close> package, as far as the cache manager uses it\<close>

text \<open>
  \<open>LRUCache\<close> comes from the package \<open>lru-cache\<close>, a dependency of the repository. Its
  behaviour under the three options that the constructor passes is taken from the package's
  documentation:
  \<^item> \<open>max\<close>: the number of items kept; adding a new key to a full cache evicts the least
    recently used item;
  \<^item> \<open>ttl\<close>: an item whose age exceeds \<open>ttl\<close> is stale: \<open>get\<close> deletes it and returns
    nothing, \<open>has\<close> is false for it, and the iterators skip it;
  \<^item> \<open>updateAgeOnGet\<close>: when true, a \<open>get\<close> that returns an item resets the item's age to
    zero.
  The cache is the list of its items from the least to the most recently used one; an item
  is its key, its value and the time at which its age started. \<open>get\<close> and \<open>set\<close> move the item
  to the most recently used end, \<open>has\<close> does not.
\<close>

record lruOptions =
  opt_max :: nat
  opt_ttl :: int
  opt_updateAgeOnGet :: bool

type_synonym 'v lru = "(string \<times> 'v \<times> int) list"

definition isStale :: "lruOptions \<Rightarrow> int \<Rightarrow> int \<Rightarrow> bool" where
  "isStale opts now start = (opt_ttl opts \<noteq> 0 \<and> now - start > opt_ttl opts)"

definition lruDelete :: "string \<Rightarrow> 'v lru \<Rightarrow> 'v lru" where
  "lruDelete k items = filter (\<lambda>item. fst item \<noteq> k) items"

definition lruGet :: "lruOptions \<Rightarrow> string \<Rightarrow> int \<Rightarrow> 'v lru \<Rightarrow> 'v option \<times> 'v lru" where
  "lruGet opts k now items =
     (case map_of items k of
        None \<Rightarrow> (None, items)
      | Some (v, start) \<Rightarrow>
          if isStale opts now start then (None, lruDelete k items)
          else (Some v,
                lruDelete k items @ [(k, v, if opt_updateAgeOnGet opts then now else start)]))"

definition lruSet :: "lruOptions \<Rightarrow> string \<Rightarrow> 'v \<Rightarrow> int \<Rightarrow> 'v lru \<Rightarrow> 'v lru" where
  "lruSet opts k v now items =
     (case map_of items k of
        Some old \<Rightarrow> lruDelete k items @ [(k, v, now)]
      | None \<Rightarrow>
          (if length items \<ge> opt_max opts then tl items else items) @ [(k, v, now)])"

definition lruHas :: "lruOptions \<Rightarrow> string \<Rightarrow> int \<Rightarrow> 'v lru \<Rightarrow> bool" where
  "lruHas opts k now items =
     (case map_of items k of
        None \<Rightarrow> False
      | Some (v, start) \<Rightarrow> \<not> isStale opts now start)"

text \<open>\<open>entries()\<close>: the items that are not stale, most recently used first.\<close>

definition lruEntries :: "lruOptions \<Rightarrow> int \<Rightarrow> 'v lru \<Rightarrow> (string \<times> 'v) list" where
  "lruEntries opts now items =
     map (\<lambda>(k, v, start). (k, v))
       (rev (filter (\<lambda>(k, v, start). \<not> isStale opts now start) items))"

subsection \<open>\<open>CacheManager\<close>\<close>

definition CACHE_TTL :: int where
  "CACHE_TTL = 60 * 1000"

record CacheEntry =
  data :: User
  timestamp :: int

text \<open>The constructor's options.\<close>

definition cacheOptions :: lruOptions where
  "cacheOptions = \<lparr>opt_max = 1000, opt_ttl = CACHE_TTL, opt_updateAgeOnGet = True\<rparr>"

record CacheManager =
  cache :: "CacheEntry lru"
  hits :: nat
  misses :: nat
  responseTimes :: "int list"

definition newCacheManager :: CacheManager where
  "newCacheManager = \<lparr>cache = [], hits = 0, misses = 0, responseTimes = []\<rparr>"

text \<open>
  \<open>this.cache.get(key)\<close>, the first line of \<open>get\<close>: the entry, which carries the time of
  its insertion. The package reads its own clock; it advances with \<open>Date.now()\<close>, and one
  reading \<open>now\<close> serves for both.
\<close>

definition cacheGetEntry :: "string \<Rightarrow> int \<Rightarrow> CacheManager \<Rightarrow> CacheEntry option \<times> CacheManager" where
  "cacheGetEntry key now cm =
     (case lruGet cacheOptions key now (cache cm) of
        (entry, items) \<Rightarrow> (entry, cm\<lparr>cache := items\<rparr>))"

definition cacheGet :: "string \<Rightarrow> int \<Rightarrow> CacheManager \<Rightarrow> User option \<times> CacheManager" where
  "cacheGet key now cm =
     (case cacheGetEntry key now cm of
        (Some entry, cm') \<Rightarrow> (Some (data entry), cm'\<lparr>hits := hits cm' + 1\<rparr>)
      | (None, cm') \<Rightarrow> (None, cm'\<lparr>misses := misses cm' + 1\<rparr>))"

definition cacheSet :: "string \<Rightarrow> User \<Rightarrow> int \<Rightarrow> CacheManager \<Rightarrow> CacheManager" where
  "cacheSet key user now cm =
     cm\<lparr>cache := lruSet cacheOptions key \<lparr>data = user, timestamp = now\<rparr> now (cache cm)\<rparr>"

definition cacheHas :: "string \<Rightarrow> int \<Rightarrow> CacheManager \<Rightarrow> bool" where
  "cacheHas key now cm = lruHas cacheOptions key now (cache cm)"

definition cacheClear :: "CacheManager \<Rightarrow> CacheManager" where
  "cacheClear cm = cm\<lparr>cache := [], hits := 0, misses := 0, responseTimes := []\<rparr>"

definition cacheSize :: "CacheManager \<Rightarrow> nat" where
  "cacheSize cm = length (cache cm)"

definition recordResponseTime :: "int \<Rightarrow> CacheManager \<Rightarrow> CacheManager" where
  "recordResponseTime time cm =
     (let times = responseTimes cm @ [time]
      in cm\<lparr>responseTimes := (if length times > 1000 then tl times else times)\<rparr>)"

text \<open>\<open>cleanStaleEntries\<close>: the loop over \<open>this.cache.entries()\<close>.\<close>

fun cleanStaleLoop :: "int \<Rightarrow> (string \<times> CacheEntry) list \<Rightarrow> CacheEntry lru \<Rightarrow> CacheEntry lru" where
  "cleanStaleLoop now [] items = items"
| "cleanStaleLoop now ((key, entry) # rest) items =
     cleanStaleLoop now rest
       (if now - timestamp entry > CACHE_TTL then lruDelete key items else items)"

definition cleanStaleEntries :: "int \<Rightarrow> CacheManager \<Rightarrow> CacheManager" where
  "cleanStaleEntries now cm =
     cm\<lparr>cache := cleanStaleLoop now (lruEntries cacheOptions now (cache cm)) (cache cm)\<rparr>"

text \<open>The calls that the rest of the program makes on the cache manager, each with the clock
  reading at which it runs, and a run of such calls.\<close>

datatype cacheCall =
    Get string
  | Set string User
  | Has string
  | Clear
  | RecordResponseTime int
  | CleanStaleEntries

fun cacheCallStep :: "int \<times> cacheCall \<Rightarrow> CacheManager \<Rightarrow> CacheManager" where
  "cacheCallStep (now, Get key) cm = snd (cacheGet key now cm)"
| "cacheCallStep (now, Set key user) cm = cacheSet key user now cm"
| "cacheCallStep (now, Has key) cm = cm"
| "cacheCallStep (now, Clear) cm = cacheClear cm"
| "cacheCallStep (now, RecordResponseTime time) cm = recordResponseTime time cm"
| "cacheCallStep (now, CleanStaleEntries) cm = cleanStaleEntries now cm"

definition cacheRun :: "(int \<times> cacheCall) list \<Rightarrow> CacheManager \<Rightarrow> CacheManager" where
  "cacheRun calls cm = foldl (\<lambda>c call. cacheCallStep call c) cm calls"

text \<open>
  The accesses of a run, in their order: a \<open>set\<close> accesses its key, and so does a \<open>get\<close> that
  returns the entry; a \<open>get\<close> that finds nothing, \<open>has\<close> and the other calls access nothing.
  \<open>accessLog calls cm\<close> lists the keys accessed by the calls, run from the state \<open>cm\<close>.
\<close>

fun cacheCallAccess :: "int \<times> cacheCall \<Rightarrow> CacheManager \<Rightarrow> string list" where
  "cacheCallAccess (now, Get key) cm = (if fst (cacheGet key now cm) = None then [] else [key])"
| "cacheCallAccess (now, Set key user) cm = [key]"
| "cacheCallAccess (now, Has key) cm = []"
| "cacheCallAccess (now, Clear) cm = []"
| "cacheCallAccess (now, RecordResponseTime time) cm = []"
| "cacheCallAccess (now, CleanStaleEntries) cm = []"

fun accessLog :: "(int \<times> cacheCall) list \<Rightarrow> CacheManager \<Rightarrow> string list" where
  "accessLog [] cm = []"
| "accessLog (call # calls) cm = cacheCallAccess call cm @ accessLog calls (cacheCallStep call cm)"

text \<open>\<open>lastAccess k log\<close>: the position, counted from 1, of the last access to \<open>k\<close> in the
  log, and 0 when \<open>k\<close> was never accessed.\<close>

definition lastAccess :: "string \<Rightarrow> string list \<Rightarrow> nat" where
  "lastAccess k log = length (dropWhile (\<lambda>x. x \<noteq> k) (rev log))"

text \<open>\<open>recencyOrdered log items\<close>: every item has been accessed, and an item stands before
  another exactly when its last access came earlier.\<close>

definition recencyOrdered :: "string list \<Rightarrow> 'v lru \<Rightarrow> bool" where
  "recencyOrdered log items =
     (sorted_wrt (\<lambda>a b. lastAccess (fst a) log < lastAccess (fst b) log) items \<and>
      list_all (\<lambda>item. 0 < lastAccess (fst item) log) items)"

text \<open>
  \<open>accessOrdered now items\<close>: the items are in the order of the times at which their ages
  started, none of them after \<open>now\<close>. With \<open>updateAgeOnGet\<close> the age of an item starts at
  its last \<open>set\<close> or successful \<open>get\<close>, that is, at its last access.
\<close>

definition accessOrdered :: "int \<Rightarrow> 'v lru \<Rightarrow> bool" where
  "accessOrdered now items =
     (sorted (map (\<lambda>item. snd (snd item)) items) \<and> list_all (\<lambda>item. snd (snd item) \<le> now) items)"

text \<open>Sample data: a stored user, and the calls that fill the cache with \<open>n\<close> distinct
  keys, one per millisecond.\<close>

definition john :: User where
  "john = \<lparr>user_id = 1, user_name = ''John Doe'', user_email = ''john@example.com'',
     user_password = Some ''$2a$10$hash'', user_createdAt = Some ''2024-01-01T00:00:00.000Z''\<rparr>"

definition fillKey :: "nat \<Rightarrow> string" where
  "fillKey i = replicate (Suc i) CHR ''k''"

definition fillCalls :: "nat \<Rightarrow> (int \<times> cacheCall) list" where
  "fillCalls n = map (\<lambda>i. (int i, Set (fillKey i) john)) [0..<n]"

section \<open>The user service (\<open>services/userService\<close>: src/unnamed/part_000)\<close>

text \<open>
  The service has loaded its users (\<open>ensureInitialized\<close> has settled). JavaScript runs one
  callback at a time and runs it to its end, so the two halves of \<open>getUserById\<close> are
  atomic steps: the synchronous part from the test of \<open>pendingRequests\<close> to the \<open>await\<close>
  (lines 113-131), and the timer callback (lines 118-126) together with the continuations
  that the settled promise resumes.

  A fetch promise is known by its number. A timer that has been set and has not fired yet
  is a Backing Store call in flight. A caller is known by a number as well.
\<close>

text \<open>What a call of \<open>getUserById\<close> gives its caller: a user, \<open>null\<close>, or a rejection with
  the error's message.\<close>

datatype fetchResult = Value User | Null | Thrown string

text \<open>
  The call that creates the fetch promise awaits it inside \<open>try\<close>/\<open>catch\<close> (lines 131-135);
  a call that finds a pending promise returns that promise as it is (line 114).
\<close>

datatype role = Leader | Joiner

record UserService =
  users :: "(int \<times> User) list"
  pendingRequests :: "(int \<times> nat) list"
  timers :: "(nat \<times> int) list"
  waiting :: "(nat \<times> nat \<times> role) list"
  fetches :: nat

definition newUserService :: "(int \<times> User) list \<Rightarrow> UserService" where
  "newUserService us =
     \<lparr>users = us, pendingRequests = [], timers = [], waiting = [], fetches = 0\<rparr>"

definition getUserById :: "nat \<Rightarrow> int \<Rightarrow> UserService \<Rightarrow> UserService" where
  "getUserById caller ident svc =
     (case map_of (pendingRequests svc) ident of
        Some p \<Rightarrow> svc\<lparr>waiting := waiting svc @ [(p, caller, Joiner)]\<rparr>
      | None \<Rightarrow>
          (let p = fetches svc
           in svc\<lparr>fetches := p + 1,
                  timers := timers svc @ [(p, ident)],
                  pendingRequests := AList.update ident p (pendingRequests svc),
                  waiting := waiting svc @ [(p, caller, Leader)]\<rparr>))"

text \<open>The promise resolves with the user or rejects with \<open>Error('User not found')\<close>; the
  leader's \<open>catch\<close> turns the rejection into \<open>null\<close>.\<close>

fun settle :: "role \<Rightarrow> User option \<Rightarrow> fetchResult" where
  "settle r (Some user) = Value user"
| "settle Leader None = Null"
| "settle Joiner None = Thrown ''User not found''"

definition timerFires :: "nat \<Rightarrow> UserService \<Rightarrow> (nat \<times> fetchResult) list \<times> UserService" where
  "timerFires p svc =
     (case map_of (timers svc) p of
        None \<Rightarrow> ([], svc)
      | Some ident \<Rightarrow>
          (let user = map_of (users svc) ident
           in (map (\<lambda>(p', caller, r). (caller, settle r user))
                 (filter (\<lambda>w. fst w = p) (waiting svc)),
               svc\<lparr>timers := AList.delete p (timers svc),
                   pendingRequests := AList.delete ident (pendingRequests svc),
                   waiting := filter (\<lambda>w. fst w \<noteq> p) (waiting svc)\<rparr>)))"

text \<open>Any interleaving of calls and timers: the events, and what the callers have received.\<close>

datatype svcEvent = CallGetUserById nat int | TimerFires nat

fun svcStep :: "svcEvent \<Rightarrow> UserService \<times> (nat \<times> fetchResult) list \<Rightarrow>
    UserService \<times> (nat \<times> fetchResult) list" where
  "svcStep (CallGetUserById caller ident) (svc, received) =
     (getUserById caller ident svc, received)"
| "svcStep (TimerFires p) (svc, received) =
     (case timerFires p svc of (delivered, svc') \<Rightarrow> (svc', received @ delivered))"

definition svcRun :: "svcEvent list \<Rightarrow> UserService \<Rightarrow> UserService \<times> (nat \<times> fetchResult) list" where
  "svcRun events svc = foldl (\<lambda>s e. svcStep e s) (svc, []) events"

text \<open>The number of Backing Store calls for \<open>ident\<close> that are in flight.\<close>

definition inFlight :: "int \<Rightarrow> UserService \<Rightarrow> nat" where
  "inFlight ident svc = length (filter (\<lambda>timer. snd timer = ident) (timers svc))"

section \<open>The request queue (src/unnamed/part_003) and the route \<open>GET /users/:id\<close> (src/src/routes/users.ts)\<close>

record QueuedRequest =
  userId :: int
  handler :: nat

datatype response =
    Ok "(string \<times> json) list"
  | BadRequest
  | NotFound
  | InternalServerError

text \<open>
  The application state that the route works on. \<open>handlers\<close> holds the route handlers that
  are suspended at an \<open>await\<close>, each with its \<open>userId\<close> and \<open>startTime\<close>; \<open>sleeping\<close> are those
  of them that wait in the 50 ms pause of line 49.
\<close>

record App =
  cacheManager :: CacheManager
  userService :: UserService
  queue :: "QueuedRequest list"
  processing :: bool
  handlers :: "(nat \<times> int \<times> int) list"
  sleeping :: "nat list"
  responses :: "(nat \<times> response) list"

definition newApp :: "(int \<times> User) list \<Rightarrow> App" where
  "newApp us =
     \<lparr>cacheManager = newCacheManager, userService = newUserService us, queue = [],
      processing = False, handlers = [], sleeping = [], responses = []\<rparr>"

text \<open>The template literal \<open>`user:${userId}`\<close>.\<close>

definition digitChar :: "nat \<Rightarrow> char" where
  "digitChar d = ''0123456789'' ! d"

function showNat :: "nat \<Rightarrow> string" where
  "showNat n = (if n < 10 then [digitChar n] else showNat (n div 10) @ [digitChar (n mod 10)])"
  by pat_completeness auto
termination
  by (relation "measure (\<lambda>n. n)") auto

definition showInt :: "int \<Rightarrow> string" where
  "showInt i = (if i < 0 then CHR ''-'' # showNat (nat (- i)) else showNat (nat i))"

definition cacheKey :: "int \<Rightarrow> string" where
  "cacheKey ident = ''user:'' @ showInt ident"

definition respond :: "nat \<Rightarrow> response \<Rightarrow> App \<Rightarrow> App" where
  "respond h r app = app\<lparr>responses := responses app @ [(h, r)]\<rparr>"

text \<open>\<open>processQueue\<close> from the head of its \<open>while\<close> loop to the \<open>await\<close>.\<close>

definition processLoop :: "App \<Rightarrow> App" where
  "processLoop app =
     (case queue app of
        [] \<Rightarrow> app\<lparr>processing := False\<rparr>
      | request # rest \<Rightarrow>
          app\<lparr>queue := rest,
              userService := getUserById (handler request) (userId request) (userService app)\<rparr>)"

definition processQueue :: "App \<Rightarrow> App" where
  "processQueue app =
     (if processing app \<or> queue app = [] then app
      else processLoop (app\<lparr>processing := True\<rparr>))"

definition enqueue :: "nat \<Rightarrow> int \<Rightarrow> App \<Rightarrow> App" where
  "enqueue h ident app =
     processQueue (app\<lparr>queue := queue app @ [\<lparr>userId = ident, handler = h\<rparr>]\<rparr>)"

text \<open>
  The route handler from its start to its first \<open>await\<close> (lines 26-60). \<open>parsed\<close> is the
  result of \<open>parseInt\<close>, \<open>None\<close> for \<open>NaN\<close>. The clock is read as \<open>now\<close> throughout one step.
\<close>

definition getUserRoute :: "nat \<Rightarrow> int option \<Rightarrow> int \<Rightarrow> App \<Rightarrow> App" where
  "getUserRoute h parsed now app =
     (case parsed of
        None \<Rightarrow> respond h BadRequest app
      | Some ident \<Rightarrow>
          (case cacheGet (cacheKey ident) now (cacheManager app) of
             (Some cachedUser, cm) \<Rightarrow>
               respond h (Ok (jsonOfUser cachedUser))
                 (app\<lparr>cacheManager := recordResponseTime (now - now) cm\<rparr>)
           | (None, cm) \<Rightarrow>
               if cacheHas (cacheKey ident) now cm
               then app\<lparr>cacheManager := cm, handlers := handlers app @ [(h, ident, now)],
                        sleeping := sleeping app @ [h]\<rparr>
               else enqueue h ident
                      (app\<lparr>cacheManager := cm, handlers := handlers app @ [(h, ident, now)]\<rparr>)))"

text \<open>The handler after the 50 ms pause (lines 50-60).\<close>

definition afterPause :: "nat \<Rightarrow> int \<Rightarrow> App \<Rightarrow> App" where
  "afterPause h now app =
     (if h \<notin> set (sleeping app) then app
      else case map_of (handlers app) h of
        None \<Rightarrow> app
      | Some (ident, startTime) \<Rightarrow>
          (let app1 = app\<lparr>sleeping := removeAll h (sleeping app)\<rparr>
           in case cacheGet (cacheKey ident) now (cacheManager app1) of
                (Some retryCached, cm) \<Rightarrow>
                  respond h (Ok (jsonOfUser retryCached))
                    (app1\<lparr>cacheManager := recordResponseTime (now - startTime) cm,
                          handlers := AList.delete h (handlers app1)\<rparr>)
              | (None, cm) \<Rightarrow> enqueue h ident (app1\<lparr>cacheManager := cm\<rparr>)))"

text \<open>
  What follows when \<open>getUserById\<close> has settled for the request of handler \<open>h\<close>:
  \<open>processQueue\<close> resolves or rejects the request (lines 38-44), the route handler resumes
  (lines 62-85), and the loop of \<open>processQueue\<close> goes on.
\<close>

definition afterFetch :: "int \<Rightarrow> App \<Rightarrow> nat \<times> fetchResult \<Rightarrow> App" where
  "afterFetch now app d =
     (case d of (h, res) \<Rightarrow>
       (case map_of (handlers app) h of
          None \<Rightarrow> processLoop app
        | Some (ident, startTime) \<Rightarrow>
            (let app1 = app\<lparr>handlers := AList.delete h (handlers app)\<rparr>
             in processLoop
               (case res of
                  Null \<Rightarrow> respond h NotFound app1
                | Value user \<Rightarrow>
                    respond h (Ok (jsonOfUserResponse (getUserResponse user)))
                      (app1\<lparr>cacheManager :=
                          recordResponseTime (now - startTime)
                            (cacheSet (cacheKey ident) user now (cacheManager app1))\<rparr>)
                | Thrown e \<Rightarrow>
                    respond h InternalServerError
                      (app1\<lparr>cacheManager :=
                          recordResponseTime (now - startTime) (cacheManager app1)\<rparr>)))))"

definition onTimer :: "nat \<Rightarrow> int \<Rightarrow> App \<Rightarrow> App" where
  "onTimer p now app =
     (case timerFires p (userService app) of
        (delivered, svc) \<Rightarrow> foldl (afterFetch now) (app\<lparr>userService := svc\<rparr>) delivered)"

text \<open>The turns of the event loop: an incoming \<open>GET /users/:id\<close>, the end of a handler's
  pause, a timer of the user service; each with the clock reading at which it runs.\<close>

datatype appEvent =
    Request nat "int option" int
  | Wake nat int
  | Timer nat int

fun appStep :: "App \<Rightarrow> appEvent \<Rightarrow> App" where
  "appStep app (Request h parsed now) = getUserRoute h parsed now app"
| "appStep app (Wake h now) = afterPause h now app"
| "appStep app (Timer p now) = onTimer p now app"

definition appRun :: "appEvent list \<Rightarrow> App \<Rightarrow> App" where
  "appRun events app = foldl appStep app events"

text \<open>The users that \<open>initializeUsers\<close> writes, with a placeholder for the password hash and
  the creation date.\<close>

definition defaultUser :: "int \<Rightarrow> string \<Rightarrow> string \<Rightarrow> User" where
  "defaultUser i n e =
     \<lparr>user_id = i, user_name = n, user_email = e,
      user_password = Some ''$2a$10$N9qo8uLOickgx2ZMRZoMye'',
      user_createdAt = Some ''2024-01-01T00:00:00.000Z''\<rparr>"

definition defaultUsers :: "(int \<times> User) list" where
  "defaultUsers =
     [(1, defaultUser 1 ''John Doe'' ''john@example.com''),
      (2, defaultUser 2 ''Jane Smith'' ''jane@example.com''),
      (3, defaultUser 3 ''Alice Johnson'' ''alice@example.com'')]"

text \<open>\<open>n\<close> requests for the same user that arrive together, and the timers that then fire,
  200 ms apart.\<close>

definition simultaneous :: "nat \<Rightarrow> int \<Rightarrow> appEvent list" where
  "simultaneous n ident =
     map (\<lambda>h. Request h (Some ident) 0) [0..<n] @
     map (\<lambda>p. Timer p (200 * (int p + 1))) [0..<n]"


section \<open>Invariants of the user service and the queue\<close>

text \<open>
  \<open>svcInv\<close>: the timers in flight belong to distinct promises and to distinct user ids, and
  each of them is the promise registered in \<open>pendingRequests\<close> for its id.
\<close>

definition svcInv :: "UserService \<Rightarrow> bool" where
  "svcInv svc =
     (distinct (map fst (timers svc)) \<and> distinct (map snd (timers svc)) \<and>
      list_all (\<lambda>timer. fst timer < fetches svc \<and>
                  map_of (pendingRequests svc) (snd timer) = Some (fst timer)) (timers svc))"

text \<open>
  \<open>appInv\<close>: while \<open>processQueue\<close> is running, the service holds exactly one fetch, awaited by
  its leader; otherwise the service holds none and the queue is empty.
\<close>

definition quiet :: "UserService \<Rightarrow> bool" where
  "quiet svc = (timers svc = [] \<and> pendingRequests svc = [] \<and> waiting svc = [])"

definition oneLeader :: "UserService \<Rightarrow> bool" where
  "oneLeader svc =
     (\<exists>p ident h. timers svc = [(p, ident)] \<and> pendingRequests svc = [(ident, p)] \<and>
        waiting svc = [(p, h, Leader)])"

definition appInv :: "App \<Rightarrow> bool" where
  "appInv app =
     (if processing app then oneLeader (userService app)
      else quiet (userService app) \<and> queue app = [])"

text \<open>
  The states that \<open>n\<close> simultaneous requests for one stored user go through: \<open>serving\<close>
  while the \<open>k\<close>-th fetch is in flight, \<open>served\<close> at the end.
\<close>

definition okResponse :: "User \<Rightarrow> nat \<Rightarrow> nat \<times> response" where
  "okResponse u h = (h, Ok (jsonOfUserResponse (getUserResponse u)))"

definition serving :: "int \<Rightarrow> User \<Rightarrow> nat \<Rightarrow> nat \<Rightarrow> App \<Rightarrow> bool" where
  "serving ident u k n app =
     (map_of (users (userService app)) ident = Some u \<and>
      fetches (userService app) = Suc k \<and>
      timers (userService app) = [(k, ident)] \<and>
      pendingRequests (userService app) = [(ident, k)] \<and>
      waiting (userService app) = [(k, k, Leader)] \<and>
      queue app = map (\<lambda>h. \<lparr>userId = ident, handler = h\<rparr>) [Suc k..<n] \<and>
      processing app \<and>
      (\<forall>h\<in>{k..<n}. \<exists>start. map_of (handlers app) h = Some (ident, start)) \<and>
      responses app = map (okResponse u) [0..<k])"

definition served :: "User \<Rightarrow> nat \<Rightarrow> App \<Rightarrow> bool" where
  "served u n app =
     (fetches (userService app) = n \<and> \<not> processing app \<and> queue app = [] \<and>
      responses app = map (okResponse u) [0..<n])"

section \<open>Properties of the rate limiter\<close>

lemma rateLimiter_other:
  "c' \<noteq> c \<Longrightarrow> map_of (snd (rateLimiter c' t s)) c = map_of s c"
  by (simp add: rateLimiter_def Let_def split: prod.splits add: update_conv')

lemma rateLimiter_cong:
  assumes "map_of s c = map_of s' c"
  shows "fst (rateLimiter c t s) = fst (rateLimiter c t s')"
    and "map_of (snd (rateLimiter c t s)) c = map_of (snd (rateLimiter c t s')) c"
  using assms by (simp_all add: rateLimiter_def Let_def update_conv' split: prod.splits)

lemma serveAll_Cons:
  "fst (serveAll ((c, t) # reqs) s) =
     (c, fst (rateLimiter c t s)) # fst (serveAll reqs (snd (rateLimiter c t s)))"
  "snd (serveAll ((c, t) # reqs) s) = snd (serveAll reqs (snd (rateLimiter c t s)))"
  by (simp_all add: case_prod_beta)

lemma serveAll_independent:
  "map_of s c = map_of s' c \<Longrightarrow>
   decisionsFor c (fst (serveAll reqs s)) = map snd (fst (serveAll (map (Pair c) (timesOf c reqs)) s'))"
proof (induction reqs arbitrary: s s')
  case Nil
  then show ?case by (simp add: decisionsFor_def timesOf_def)
next
  case (Cons r reqs)
  obtain c' t where r: "r = (c', t)" by (cases r)
  show ?case
  proof (cases "c' = c")
    case True
    have m: "map_of (snd (rateLimiter c t s)) c = map_of (snd (rateLimiter c t s')) c"
      using Cons.prems by (rule rateLimiter_cong)
    have f: "fst (rateLimiter c t s) = fst (rateLimiter c t s')"
      using Cons.prems by (rule rateLimiter_cong)
    from Cons.IH[OF m] f show ?thesis
      using True r by (simp add: decisionsFor_def timesOf_def serveAll_Cons del: serveAll.simps)
  next
    case False
    have m: "map_of (snd (rateLimiter c' t s)) c = map_of s' c"
      using False Cons.prems by (simp add: rateLimiter_other)
    from Cons.IH[OF m] show ?thesis
      using False r by (simp add: decisionsFor_def timesOf_def serveAll_Cons del: serveAll.simps)
  qed
qed


lemma rateLimiter_Some:
  "map_of s c = Some e \<Longrightarrow>
   rateLimiter c t s =
     (fst (admit t (resetWindows t e)), AList.update c (snd (admit t (resetWindows t e))) s)"
  by (simp add: rateLimiter_def case_prod_beta Let_def)

lemma rateLimiter_None:
  "map_of s c = None \<Longrightarrow>
   rateLimiter c t s =
     (fst (admit t (resetWindows t (newEntry t))),
      AList.update c (snd (admit t (resetWindows t (newEntry t)))) s)"
  by (simp add: rateLimiter_def case_prod_beta Let_def)

lemma serveAll_append:
  "fst (serveAll (xs @ ys) s) = fst (serveAll xs s) @ fst (serveAll ys (snd (serveAll xs s)))"
  "snd (serveAll (xs @ ys) s) = snd (serveAll ys (snd (serveAll xs s)))"
  by (induction xs arbitrary: s) (simp_all add: case_prod_beta split_paired_all)

lemma decisions_Cons:
  "decisions c (t # ts) s = fst (rateLimiter c t s) # decisions c ts (snd (rateLimiter c t s))"
  by (simp add: decisions_def case_prod_beta)

lemma decisions_single:
  "decisions c [t] s = [fst (rateLimiter c t s)]"
  by (simp add: decisions_def case_prod_beta)

lemma decisions_append:
  "decisions c (ts @ us) s =
     decisions c ts s @ decisions c us (snd (serveAll (map (Pair c) ts) s))"
  by (simp add: decisions_def serveAll_append)

lemma run_within:
  assumes "map_of s c = Some e"
    and "\<forall>t\<in>set ts. t \<le> resetTime e \<and> t \<le> burstResetTime e"
    and "count e + length ts \<le> maxRequests"
    and "burstCount e + length ts \<le> burstMax"
  shows "decisions c ts s = replicate (length ts) Next \<and>
         map_of (snd (serveAll (map (Pair c) ts) s)) c =
           Some (e\<lparr>count := count e + length ts, burstCount := burstCount e + length ts\<rparr>)"
  using assms
proof (induction ts arbitrary: s e)
  case Nil
  then show ?case by (simp add: decisions_def)
next
  case (Cons t ts)
  let ?e' = "e\<lparr>count := count e + 1, burstCount := burstCount e + 1\<rparr>"
  have r: "resetWindows t e = e"
    using Cons.prems(2) by (simp add: resetWindows_def)
  have a: "admit t e = (Next, ?e')"
    using Cons.prems(3,4) by (simp add: admit_def)
  have step: "rateLimiter c t s = (Next, AList.update c ?e' s)"
    using Cons.prems(1) r a by (simp add: rateLimiter_Some)
  have m: "map_of (AList.update c ?e' s) c = Some ?e'"
    by (simp add: update_conv')
  have ih: "decisions c ts (AList.update c ?e' s) = replicate (length ts) Next \<and>
         map_of (snd (serveAll (map (Pair c) ts) (AList.update c ?e' s))) c =
           Some (?e'\<lparr>count := count ?e' + length ts, burstCount := burstCount ?e' + length ts\<rparr>)"
    using Cons.prems(2,3,4) by (intro Cons.IH[OF m]) simp_all
  show ?case
    using ih step by (simp add: decisions_Cons case_prod_beta)
qed

lemma run_spaced:
  assumes "map_of s c = Some e"
    and "\<forall>t\<in>set ts. t \<le> resetTime e"
    and "count e + length ts \<le> maxRequests"
    and "burstSpaced (burstResetTime e) (burstCount e) ts"
  shows "decisions c ts s = replicate (length ts) Next \<and>
         (\<exists>e'. map_of (snd (serveAll (map (Pair c) ts) s)) c = Some e' \<and>
               count e' = count e + length ts \<and> resetTime e' = resetTime e)"
  using assms
proof (induction ts arbitrary: s e)
  case Nil
  then show ?case by (simp add: decisions_def)
next
  case (Cons t ts)
  define e1 where "e1 = resetWindows t e"
  define e2 where "e2 = e1\<lparr>count := count e1 + 1, burstCount := burstCount e1 + 1\<rparr>"
  have t: "t \<le> resetTime e" using Cons.prems(2) by simp
  have e1: "count e1 = count e" "resetTime e1 = resetTime e"
    "burstCount e1 = (if t > burstResetTime e then 0 else burstCount e)"
    "burstResetTime e1 = (if t > burstResetTime e then t + burstWindowMs else burstResetTime e)"
    using t by (simp_all add: e1_def resetWindows_def)
  have b: "burstCount e1 < burstMax"
    using Cons.prems(4) e1 by (simp add: burstMax_def split: if_splits)
  have a: "admit t e1 = (Next, e2)"
    using b Cons.prems(3) e1 by (simp add: admit_def e2_def)
  have step: "rateLimiter c t s = (Next, AList.update c e2 s)"
    using Cons.prems(1) a by (simp add: rateLimiter_Some e1_def)
  have m: "map_of (AList.update c e2 s) c = Some e2"
    by (simp add: update_conv')
  have sp: "burstSpaced (burstResetTime e2) (burstCount e2) ts"
    using Cons.prems(4) e1 by (simp add: e2_def split: if_splits)
  have ih: "decisions c ts (AList.update c e2 s) = replicate (length ts) Next \<and>
         (\<exists>e'. map_of (snd (serveAll (map (Pair c) ts) (AList.update c e2 s))) c = Some e' \<and>
               count e' = count e2 + length ts \<and> resetTime e' = resetTime e2)"
    using Cons.prems(2,3) e1 sp by (intro Cons.IH[OF m]) (simp_all add: e2_def)
  show ?case
    using ih step e1 by (simp add: decisions_Cons case_prod_beta e2_def)
qed


lemma first_request:
  assumes "map_of s c = None"
  shows "rateLimiter c t s =
           (Next, AList.update c ((newEntry t)\<lparr>count := 1, burstCount := 1\<rparr>) s)"
proof -
  have r: "resetWindows t (newEntry t) = newEntry t"
    by (simp add: resetWindows_def newEntry_def windowMs_def burstWindowMs_def)
  have a: "admit t (newEntry t) = (Next, (newEntry t)\<lparr>count := 1, burstCount := 1\<rparr>)"
    by (simp add: admit_def newEntry_def burstMax_def maxRequests_def)
  show ?thesis using assms r a by (simp add: rateLimiter_None)
qed

lemma burst_window_part:
  assumes none: "map_of store c = None"
    and len: "length ts = 5"
    and within: "\<forall>t\<in>set ts. t \<le> hd ts + burstWindowMs"
    and t6: "t6 \<le> hd ts + burstWindowMs"
  shows "decisions c (ts @ [t6]) store =
           replicate 5 Next @
           [TooManyRequests ''Too many requests in a short time. Please try again later.''
              (ceilSeconds (hd ts + burstWindowMs - t6))]"
proof -
  obtain t1 rest where ts: "ts = t1 # rest" and lr: "length rest = 4"
    using len by (cases ts) simp_all
  let ?e = "(newEntry t1)\<lparr>count := 1, burstCount := 1\<rparr>"
  let ?s1 = "AList.update c ?e store"
  have step1: "rateLimiter c t1 store = (Next, ?s1)"
    using none by (rule first_request)
  have m1: "map_of ?s1 c = Some ?e" by (simp add: update_conv')
  have w: "\<forall>t\<in>set rest. t \<le> resetTime ?e \<and> t \<le> burstResetTime ?e"
    using within ts by (auto simp: newEntry_def windowMs_def burstWindowMs_def)
  have rw: "decisions c rest ?s1 = replicate (length rest) Next \<and>
         map_of (snd (serveAll (map (Pair c) rest) ?s1)) c =
           Some (?e\<lparr>count := count ?e + length rest, burstCount := burstCount ?e + length rest\<rparr>)"
    using w lr by (intro run_within[OF m1]) (simp_all add: maxRequests_def burstMax_def)
  let ?s5 = "snd (serveAll (map (Pair c) rest) ?s1)"
  let ?e5 = "(newEntry t1)\<lparr>count := 5, burstCount := 5\<rparr>"
  have m5: "map_of ?s5 c = Some ?e5" using rw lr by simp
  have r6: "resetWindows t6 ?e5 = ?e5"
    using t6 ts by (simp add: resetWindows_def newEntry_def windowMs_def burstWindowMs_def)
  have d6: "fst (rateLimiter c t6 ?s5) =
       TooManyRequests ''Too many requests in a short time. Please try again later.''
              (ceilSeconds (t1 + burstWindowMs - t6))"
    using m5 r6 by (simp add: rateLimiter_Some admit_def burstMax_def newEntry_def)
  have "decisions c (ts @ [t6]) store =
          Next # decisions c rest ?s1 @ decisions c [t6] ?s5"
    using step1 ts by (simp add: decisions_Cons decisions_append)
  moreover have "decisions c rest ?s1 = replicate 4 Next" using rw lr by simp
  moreover have "decisions c [t6] ?s5 =
       [TooManyRequests ''Too many requests in a short time. Please try again later.''
              (ceilSeconds (t1 + burstWindowMs - t6))]"
    using d6 by (simp only: decisions_single)
  moreover have "replicate 5 Next = Next # replicate 4 Next"
    by (simp add: numeral_eq_Suc)
  ultimately show ?thesis using ts by simp
qed

lemma ceilSeconds_pos: "0 < ms \<Longrightarrow> 0 < ceilSeconds ms"
  by (simp add: ceilSeconds_def)

lemma sustained_window_part:
  assumes none: "map_of store c = None"
    and len: "length us = 10"
    and within: "\<forall>t\<in>set us. t \<le> hd us + windowMs"
    and spaced: "burstSpaced (hd us + burstWindowMs) 0 us"
    and t11: "t11 \<le> hd us + windowMs"
  shows "\<exists>msg r. decisions c (us @ [t11]) store = replicate 10 Next @ [TooManyRequests msg r]"
proof -
  obtain t1 rest where us: "us = t1 # rest" and lr: "length rest = 9"
    using len by (cases us) simp_all
  let ?e = "(newEntry t1)\<lparr>count := 1, burstCount := 1\<rparr>"
  let ?s1 = "AList.update c ?e store"
  have step1: "rateLimiter c t1 store = (Next, ?s1)"
    using none by (rule first_request)
  have m1: "map_of ?s1 c = Some ?e" by (simp add: update_conv')
  have w: "\<forall>t\<in>set rest. t \<le> resetTime ?e"
    using within us by (auto simp: newEntry_def)
  have sp: "burstSpaced (burstResetTime ?e) (burstCount ?e) rest"
    using spaced us by (simp add: newEntry_def burstWindowMs_def burstMax_def)
  have rw: "decisions c rest ?s1 = replicate (length rest) Next \<and>
         (\<exists>e'. map_of (snd (serveAll (map (Pair c) rest) ?s1)) c = Some e' \<and>
               count e' = count ?e + length rest \<and> resetTime e' = resetTime ?e)"
    using w lr sp by (intro run_spaced[OF m1]) (simp_all add: maxRequests_def)
  let ?s10 = "snd (serveAll (map (Pair c) rest) ?s1)"
  from rw obtain e10 where m10: "map_of ?s10 c = Some e10"
    and c10: "count e10 = 10" and r10: "resetTime e10 = t1 + windowMs"
    using lr by (auto simp: newEntry_def)
  have cr: "count (resetWindows t11 e10) = 10"
    using t11 us c10 r10 by (simp add: resetWindows_def)
  have "\<exists>msg r. fst (admit t11 (resetWindows t11 e10)) = TooManyRequests msg r"
    using cr by (simp add: admit_def maxRequests_def)
  then obtain msg r where d11: "fst (rateLimiter c t11 ?s10) = TooManyRequests msg r"
    using m10 by (auto simp: rateLimiter_Some)
  have "decisions c (us @ [t11]) store =
          Next # decisions c rest ?s1 @ decisions c [t11] ?s10"
    using step1 us by (simp add: decisions_Cons decisions_append)
  moreover have "decisions c rest ?s1 = replicate 9 Next" using rw lr by simp
  moreover have "decisions c [t11] ?s10 = [TooManyRequests msg r]"
    using d11 by (simp only: decisions_single)
  moreover have "replicate 10 Next = Next # replicate 9 Next"
    by (simp add: numeral_eq_Suc)
  ultimately have "decisions c (us @ [t11]) store = replicate 10 Next @ [TooManyRequests msg r]"
    by simp
  then show ?thesis by blast
qed

text \<open>
  Claim C6. A client without window state sends requests. (1) Five requests, none later
  than 10 s after the first, are all admitted, and a sixth that arrives less than 10 s after
  the first is rejected with a positive \<open>retryAfter\<close>. (2) Ten requests, none later than
  60 s after the first and spread so that no burst window is full when one of them arrives,
  are all admitted, and an eleventh that arrives no later than 60 s after the first is
  rejected. (3) The decisions taken for one client in a run that mixes requests of many
  clients are the decisions of that client's requests alone.
\<close>

theorem rate_limiter_windows:
  assumes "map_of store c = None"
  shows "(length ts = 5 \<and> (\<forall>t\<in>set ts. t \<le> hd ts + burstWindowMs) \<and> t6 < hd ts + burstWindowMs \<longrightarrow>
            decisions c (ts @ [t6]) store =
              replicate 5 Next @
              [TooManyRequests ''Too many requests in a short time. Please try again later.''
                 (ceilSeconds (hd ts + burstWindowMs - t6))]
            \<and> 0 < ceilSeconds (hd ts + burstWindowMs - t6))
       \<and> (length us = 10 \<and> (\<forall>t\<in>set us. t \<le> hd us + windowMs) \<and>
            burstSpaced (hd us + burstWindowMs) 0 us \<and> t11 \<le> hd us + windowMs \<longrightarrow>
            (\<exists>msg r. decisions c (us @ [t11]) store = replicate 10 Next @ [TooManyRequests msg r]))
       \<and> decisionsFor c (fst (serveAll reqs store)) = decisions c (timesOf c reqs) store"
proof (intro conjI impI)
  assume a: "length ts = 5 \<and> (\<forall>t\<in>set ts. t \<le> hd ts + burstWindowMs) \<and> t6 < hd ts + burstWindowMs"
  then show "decisions c (ts @ [t6]) store =
              replicate 5 Next @
              [TooManyRequests ''Too many requests in a short time. Please try again later.''
                 (ceilSeconds (hd ts + burstWindowMs - t6))]"
    using assms by (intro burst_window_part) simp_all
  from a show "0 < ceilSeconds (hd ts + burstWindowMs - t6)"
    by (intro ceilSeconds_pos) simp
next
  assume "length us = 10 \<and> (\<forall>t\<in>set us. t \<le> hd us + windowMs) \<and>
            burstSpaced (hd us + burstWindowMs) 0 us \<and> t11 \<le> hd us + windowMs"
  then show "\<exists>msg r. decisions c (us @ [t11]) store = replicate 10 Next @ [TooManyRequests msg r]"
    using assms by (intro sustained_window_part) simp_all
next
  show "decisionsFor c (fst (serveAll reqs store)) = decisions c (timesOf c reqs) store"
    unfolding decisions_def by (rule serveAll_independent) simp
qed


theorem rate_limiter_windows_witness:
  "map_of ([] :: rateLimitStore) ''10.0.0.1'' = None \<and>
   (length [0, 1000, 2000, 3000, 4000 :: int] = 5 \<and>
    list_all (\<lambda>t. t \<le> hd [0, 1000, 2000, 3000, 4000] + burstWindowMs)
      [0, 1000, 2000, 3000, 4000 :: int] \<and>
    5000 < hd [0, 1000, 2000, 3000, 4000 :: int] + burstWindowMs) \<and>
   decisions ''10.0.0.1'' ([0, 1000, 2000, 3000, 4000] @ [5000]) [] =
     replicate 5 Next @
     [TooManyRequests ''Too many requests in a short time. Please try again later.'' 5] \<and>
   (length [0, 1, 2, 3, 4, 10001, 10002, 10003, 10004, 10005 :: int] = 10 \<and>
    list_all (\<lambda>t. t \<le> hd [0, 1, 2, 3, 4, 10001, 10002, 10003, 10004, 10005] + windowMs)
      [0, 1, 2, 3, 4, 10001, 10002, 10003, 10004, 10005 :: int] \<and>
    burstSpaced (hd [0, 1, 2, 3, 4, 10001, 10002, 10003, 10004, 10005 :: int] + burstWindowMs) 0
       [0, 1, 2, 3, 4, 10001, 10002, 10003, 10004, 10005] \<and>
    20002 \<le> hd [0, 1, 2, 3, 4, 10001, 10002, 10003, 10004, 10005 :: int] + windowMs) \<and>
   (\<exists>msg r. decisions ''10.0.0.1'' ([0, 1, 2, 3, 4, 10001, 10002, 10003, 10004, 10005] @ [20002]) [] =
       replicate 10 Next @ [TooManyRequests msg r]) \<and>
   decisionsFor ''10.0.0.1''
     (fst (serveAll [(''10.0.0.1'', 0), (''10.0.0.2'', 1), (''10.0.0.2'', 2), (''10.0.0.1'', 3)] [])) =
   decisions ''10.0.0.1'' (timesOf ''10.0.0.1''
      [(''10.0.0.1'', 0), (''10.0.0.2'', 1), (''10.0.0.2'', 2), (''10.0.0.1'', 3)]) []"
  using rate_limiter_windows [of "[]" "''10.0.0.1''" "[0, 1000, 2000, 3000, 4000]" 5000
      "[0, 1, 2, 3, 4, 10001, 10002, 10003, 10004, 10005]" 20002
      "[(''10.0.0.1'', 0), (''10.0.0.2'', 1), (''10.0.0.2'', 2), (''10.0.0.1'', 3)]"]
  by (simp add: burstWindowMs_def windowMs_def burstMax_def ceilSeconds_def)

text \<open>
  At the last millisecond of the burst window the comparison \<open>now > burstResetTime\<close> is
  still false: a sixth request exactly 10 s after the first is rejected, and its
  \<open>retryAfter\<close> is 0.
\<close>

lemma boundary_retry_after_zero:
  "decisions ''10.0.0.1'' [0, 1, 2, 3, 4, 10000] [] =
     [Next, Next, Next, Next, Next,
      TooManyRequests ''Too many requests in a short time. Please try again later.'' 0]"
  by (simp add: decisions_def rateLimiter_def resetWindows_def admit_def newEntry_def
       burstWindowMs_def windowMs_def burstMax_def maxRequests_def ceilSeconds_def Let_def)

lemma rateLimiter_entry_after:
  assumes "rateLimiter c now store = (res, store')"
    and "entry = (case map_of store c of None \<Rightarrow> newEntry now | Some e \<Rightarrow> e)"
  shows "\<exists>entry'. map_of store' c = Some entry' \<and>
     resetTime entry' = (if now > resetTime entry then now + windowMs else resetTime entry) \<and>
     burstResetTime entry' =
       (if now > burstResetTime entry then now + burstWindowMs else burstResetTime entry) \<and>
     (res = Next \<longrightarrow>
        count entry' = (if now > resetTime entry then 0 else count entry) + 1 \<and>
        burstCount entry' = (if now > burstResetTime entry then 0 else burstCount entry) + 1) \<and>
     (res \<noteq> Next \<longrightarrow>
        count entry' = (if now > resetTime entry then 0 else count entry) \<and>
        burstCount entry' = (if now > burstResetTime entry then 0 else burstCount entry)) \<and>
     (res \<noteq> Next \<and> now \<le> resetTime entry \<and> now \<le> burstResetTime entry \<longrightarrow>
        map_of store c = Some entry \<and> entry' = entry)"
proof -
  have "store' = AList.update c (snd (admit now (resetWindows now entry))) store"
    and "res = fst (admit now (resetWindows now entry))"
    using assms by (auto simp: rateLimiter_def Let_def case_prod_beta)
  then show ?thesis
    using assms(2)
    by (auto simp: update_conv' admit_def resetWindows_def Let_def newEntry_def
          burstMax_def maxRequests_def split: option.splits)
qed

text \<open>
  Claim C7. Let \<open>entry\<close> be the client's window state when the request arrives (a fresh
  one for an unknown client). After an admitted request both counters are one more than
  their lazily reset values; after a rejected request both counters are their lazily reset
  values; and a rejection during which no window had lapsed leaves the state as it was.
\<close>

theorem rateLimiter_counters:
  assumes "rateLimiter c now store = (res, store')"
    and "entry = (case map_of store c of None \<Rightarrow> newEntry now | Some e \<Rightarrow> e)"
  shows "\<exists>entry'. map_of store' c = Some entry' \<and>
     resetTime entry' = (if now > resetTime entry then now + windowMs else resetTime entry) \<and>
     burstResetTime entry' =
       (if now > burstResetTime entry then now + burstWindowMs else burstResetTime entry) \<and>
     (res = Next \<longrightarrow>
        count entry' = (if now > resetTime entry then 0 else count entry) + 1 \<and>
        burstCount entry' = (if now > burstResetTime entry then 0 else burstCount entry) + 1) \<and>
     (res \<noteq> Next \<longrightarrow>
        count entry' = (if now > resetTime entry then 0 else count entry) \<and>
        burstCount entry' = (if now > burstResetTime entry then 0 else burstCount entry)) \<and>
     (res \<noteq> Next \<and> now \<le> resetTime entry \<and> now \<le> burstResetTime entry \<longrightarrow>
        map_of store c = Some entry \<and> entry' = entry)"
  using assms by (rule rateLimiter_entry_after)

theorem rateLimiter_counters_witness:
  "rateLimiter ''10.0.0.1'' 5000
     [(''10.0.0.1'', \<lparr>count = 5, resetTime = 60000, burstCount = 5, burstResetTime = 10000\<rparr>)] =
     (TooManyRequests ''Too many requests in a short time. Please try again later.'' 5,
      [(''10.0.0.1'', \<lparr>count = 5, resetTime = 60000, burstCount = 5, burstResetTime = 10000\<rparr>)]) \<and>
   (\<exists>entry'. map_of
       [(''10.0.0.1'', \<lparr>count = 5, resetTime = 60000, burstCount = 5, burstResetTime = 10000\<rparr>)]
       ''10.0.0.1'' = Some entry' \<and> count entry' = 5 \<and> burstCount entry' = 5) \<and>
   rateLimiter ''10.0.0.1'' 10001
     [(''10.0.0.1'', \<lparr>count = 5, resetTime = 60000, burstCount = 5, burstResetTime = 10000\<rparr>)] =
     (Next,
      [(''10.0.0.1'', \<lparr>count = 6, resetTime = 60000, burstCount = 1, burstResetTime = 20001\<rparr>)]) \<and>
   (\<exists>entry'. map_of
       [(''10.0.0.1'', \<lparr>count = 6, resetTime = 60000, burstCount = 1, burstResetTime = 20001\<rparr>)]
       ''10.0.0.1'' = Some entry' \<and> count entry' = 5 + 1 \<and> burstCount entry' = 0 + 1)"
proof -
  let ?e = "\<lparr>count = 5, resetTime = 60000, burstCount = 5, burstResetTime = 10000\<rparr>"
  let ?e' = "\<lparr>count = 6, resetTime = 60000, burstCount = 1, burstResetTime = 20001\<rparr>"
  have r: "rateLimiter ''10.0.0.1'' 5000 [(''10.0.0.1'', ?e)] =
     (TooManyRequests ''Too many requests in a short time. Please try again later.'' 5,
      [(''10.0.0.1'', ?e)])"
    by (simp add: rateLimiter_def resetWindows_def admit_def burstMax_def ceilSeconds_def)
  have a: "rateLimiter ''10.0.0.1'' 10001 [(''10.0.0.1'', ?e)] = (Next, [(''10.0.0.1'', ?e')])"
    by (simp add: rateLimiter_def resetWindows_def admit_def burstMax_def maxRequests_def
          burstWindowMs_def)
  have en: "?e = (case map_of [(''10.0.0.1'', ?e)] ''10.0.0.1'' of
                   None \<Rightarrow> newEntry t | Some e \<Rightarrow> e)" for t
    by simp
  have "\<exists>entry'. map_of [(''10.0.0.1'', ?e)] ''10.0.0.1'' = Some entry' \<and>
          count entry' = 5 \<and> burstCount entry' = 5"
    using rateLimiter_counters [OF r en] by simp
  moreover have "\<exists>entry'. map_of [(''10.0.0.1'', ?e')] ''10.0.0.1'' = Some entry' \<and>
          count entry' = 5 + 1 \<and> burstCount entry' = 0 + 1"
    using rateLimiter_counters [OF a en] by simp
  ultimately show ?thesis using r a by blast
qed

lemma cleanupLoop_map_of:
  "map_of (cleanupLoop now es s) c =
     (if \<exists>e. (c, e) \<in> set es \<and> now > resetTime e \<and> now > burstResetTime e
      then None else map_of s c)"
proof (induction es arbitrary: s)
  case Nil
  then show ?case by simp
next
  case (Cons p es)
  obtain k e where p: "p = (k, e)" by (cases p)
  show ?case
    unfolding p by (auto simp: Cons.IH delete_conv')
qed

text \<open>
  Claim C9. After the sweep at time \<open>now\<close> a client has no window state if and only if it
  had none before or both of its reset times were strictly before \<open>now\<close>; every other
  client keeps its state unchanged.
\<close>

theorem cleanup_removes_iff_both_expired:
  assumes "distinct (map fst store)"
  shows "map_of (cleanupRateLimitStore now store) c =
     (case map_of store c of
        None \<Rightarrow> None
      | Some e \<Rightarrow> if now > resetTime e \<and> now > burstResetTime e then None else Some e)"
proof -
  have "(c, e) \<in> set store \<longleftrightarrow> map_of store c = Some e" for e
    using assms by simp
  then show ?thesis
    by (auto simp: cleanupRateLimitStore_def cleanupLoop_map_of split: option.splits)
qed

theorem cleanup_removes_iff_both_expired_witness:
  "distinct (map fst
     [(''a'', \<lparr>count = 1, resetTime = 60000, burstCount = 1, burstResetTime = 10000\<rparr>),
      (''b'', \<lparr>count = 2, resetTime = 100000, burstCount = 1, burstResetTime = 50000\<rparr>),
      (''c'', \<lparr>count = 3, resetTime = 65000, burstCount = 1, burstResetTime = 70001\<rparr>)]) \<and>
   map_of (cleanupRateLimitStore 70000
     [(''a'', \<lparr>count = 1, resetTime = 60000, burstCount = 1, burstResetTime = 10000\<rparr>),
      (''b'', \<lparr>count = 2, resetTime = 100000, burstCount = 1, burstResetTime = 50000\<rparr>),
      (''c'', \<lparr>count = 3, resetTime = 65000, burstCount = 1, burstResetTime = 70001\<rparr>)]) ''a'' = None \<and>
   map_of (cleanupRateLimitStore 70000
     [(''a'', \<lparr>count = 1, resetTime = 60000, burstCount = 1, burstResetTime = 10000\<rparr>),
      (''b'', \<lparr>count = 2, resetTime = 100000, burstCount = 1, burstResetTime = 50000\<rparr>),
      (''c'', \<lparr>count = 3, resetTime = 65000, burstCount = 1, burstResetTime = 70001\<rparr>)]) ''c'' =
     Some \<lparr>count = 3, resetTime = 65000, burstCount = 1, burstResetTime = 70001\<rparr>"
proof -
  let ?s = "[(''a'', \<lparr>count = 1, resetTime = 60000, burstCount = 1, burstResetTime = 10000\<rparr>),
      (''b'', \<lparr>count = 2, resetTime = 100000, burstCount = 1, burstResetTime = 50000\<rparr>),
      (''c'', \<lparr>count = 3, resetTime = 65000, burstCount = 1, burstResetTime = 70001\<rparr>)]"
  have d: "distinct (map fst ?s)" by simp
  show ?thesis
    using d cleanup_removes_iff_both_expired [OF d, of 70000 "''a''"]
      cleanup_removes_iff_both_expired [OF d, of 70000 "''c''"]
    by simp
qed

text \<open>Keys stay distinct under both operations, so every store that arises from the empty
  one satisfies the hypothesis of the sweep's theorem.\<close>

lemma rateLimiter_distinct:
  "distinct (map fst store) \<Longrightarrow> distinct (map fst (snd (rateLimiter c now store)))"
  by (simp add: rateLimiter_def Let_def case_prod_beta distinct_update)

lemma cleanupLoop_distinct:
  "distinct (map fst s) \<Longrightarrow> distinct (map fst (cleanupLoop now es s))"
  by (induction es arbitrary: s) (auto simp: distinct_delete)

section \<open>The limiter on the auth routes\<close>

lemma mountMatches_AllPaths [simp]: "mountMatches AllPaths req"
  by (simp add: mountMatches_def)

lemma dispatch_auth:
  assumes "underAuth req"
  shows "dispatch appStack req k store =
    (case rateLimiter (clientIdOf (ip req)) (clock req k) store of
       (Next, store1) \<Rightarrow>
         (case rateLimiter (clientIdOf (ip req)) (clock req (Suc k)) store1 of
            (Next, store2) \<Rightarrow> (Reached AuthRoutes, store2)
          | (TooManyRequests msg r, store2) \<Rightarrow> (Blocked (TooManyRequests msg r), store2))
     | (TooManyRequests msg r, store1) \<Rightarrow> (Blocked (TooManyRequests msg r), store1))"
  using assms
  by (simp add: appStack_def underAuth_def mountMatches_def split: prod.splits limiter_result.splits)

lemma dispatch_users:
  assumes "mountMatches (Mounted ''/users'') req"
  shows "dispatch appStack req k store =
    (case rateLimiter (clientIdOf (ip req)) (clock req k) store of
       (Next, store1) \<Rightarrow> (Reached UserRoutes, store1)
     | (TooManyRequests msg r, store1) \<Rightarrow> (Blocked (TooManyRequests msg r), store1))"
proof -
  have "\<not> mountMatches (Mounted ''/auth'') req"
    using assms by (auto simp: mountMatches_def prefix_def)
  then show ?thesis
    using assms
    by (simp add: appStack_def split: prod.splits limiter_result.splits)
qed

lemma length_decisions: "length (decisions c ts s) = length ts"
  by (simp add: decisions_def) (induction ts arbitrary: s; simp add: case_prod_beta)

lemma decisions_split:
  assumes "decisions c (xs @ ys) s = replicate (length xs) Next @ zs"
  shows "decisions c xs s = replicate (length xs) Next"
    and "decisions c ys (snd (serveAll (map (Pair c) xs) s)) = zs"
proof -
  have "decisions c xs s @ decisions c ys (snd (serveAll (map (Pair c) xs) s)) =
          replicate (length xs) Next @ zs"
    using assms by (simp add: decisions_append)
  then show "decisions c xs s = replicate (length xs) Next"
    and "decisions c ys (snd (serveAll (map (Pair c) xs) s)) = zs"
    by (simp_all add: append_eq_append_conv length_decisions)
qed

lemma serveHttp_Cons:
  "fst (serveHttp (r # reqs) s) =
     fst (dispatch appStack r 0 s) # fst (serveHttp reqs (snd (dispatch appStack r 0 s)))"
  "snd (serveHttp (r # reqs) s) = snd (serveHttp reqs (snd (dispatch appStack r 0 s)))"
  by (simp_all add: case_prod_beta)

lemma serveHttp_append:
  "fst (serveHttp (xs @ ys) s) = fst (serveHttp xs s) @ fst (serveHttp ys (snd (serveHttp xs s)))"
  "snd (serveHttp (xs @ ys) s) = snd (serveHttp ys (snd (serveHttp xs s)))"
  by (induction xs arbitrary: s) (simp_all add: case_prod_beta)

lemma serveHttp_single:
  "fst (serveHttp [r] s) = [fst (dispatch appStack r 0 s)]"
  by (simp add: case_prod_beta)

lemma readings_snoc:
  "readings (reqs @ [r]) = readings reqs @ [clock r 0, clock r (Suc 0)]"
  by (simp add: readings_def)

lemma length_readings: "length (readings reqs) = 2 * length reqs"
  by (induction reqs) (simp_all add: readings_def)

lemma serveHttp_auth_admitted:
  assumes "\<forall>r\<in>set reqs. underAuth r \<and> clientIdOf (ip r) = c"
    and "decisions c (readings reqs) store = replicate (length (readings reqs)) Next"
  shows "fst (serveHttp reqs store) = replicate (length reqs) (Reached AuthRoutes) \<and>
         snd (serveHttp reqs store) = snd (serveAll (map (Pair c) (readings reqs)) store)"
  using assms
proof (induction reqs arbitrary: store)
  case Nil
  then show ?case by (simp add: readings_def)
next
  case (Cons r reqs)
  let ?a = "clock r 0" and ?b = "clock r (Suc 0)"
  have rd: "readings (r # reqs) = ?a # ?b # readings reqs"
    by (simp add: readings_def)
  have d0: "decisions c (?a # ?b # readings reqs) store = Next # Next # replicate (length (readings reqs)) Next"
    using Cons.prems(2) unfolding rd by simp
  obtain s1 where p1: "rateLimiter c ?a store = (Next, s1)"
    using d0 by (cases "rateLimiter c ?a store") (simp add: decisions_Cons)
  have d1: "decisions c (?b # readings reqs) s1 = Next # replicate (length (readings reqs)) Next"
    using d0 p1 by (simp add: decisions_Cons)
  obtain s2 where p2: "rateLimiter c ?b s1 = (Next, s2)"
    using d1 by (cases "rateLimiter c ?b s1") (simp add: decisions_Cons)
  have d2: "decisions c (readings reqs) s2 = replicate (length (readings reqs)) Next"
    using d1 p2 by (simp add: decisions_Cons)
  have r: "underAuth r" "clientIdOf (ip r) = c" using Cons.prems(1) by simp_all
  have disp: "dispatch appStack r 0 store = (Reached AuthRoutes, s2)"
    using r by (simp add: dispatch_auth p1 p2)
  have ih: "fst (serveHttp reqs s2) = replicate (length reqs) (Reached AuthRoutes) \<and>
         snd (serveHttp reqs s2) = snd (serveAll (map (Pair c) (readings reqs)) s2)"
    using Cons.prems(1) d2 by (intro Cons.IH) simp_all
  show ?case
    using ih disp p1 p2 unfolding rd
    by (simp add: serveHttp_Cons serveAll_Cons del: serveHttp.simps serveAll.simps)
qed

lemma auth_twice_counters:
  assumes auth: "underAuth req" and c: "c = clientIdOf (ip req)"
    and disp: "dispatch appStack req 0 store = (Reached AuthRoutes, store')"
    and entry: "entry = (case map_of store c of None \<Rightarrow> newEntry (clock req 0) | Some e \<Rightarrow> e)"
    and b1: "clock req (Suc 0) \<le>
       (if clock req 0 > resetTime entry then clock req 0 + windowMs else resetTime entry)"
    and b2: "clock req (Suc 0) \<le>
       (if clock req 0 > burstResetTime entry then clock req 0 + burstWindowMs
        else burstResetTime entry)"
  shows "\<exists>entry'. map_of store' c = Some entry' \<and>
     count entry' = (if clock req 0 > resetTime entry then 0 else count entry) + 2 \<and>
     burstCount entry' = (if clock req 0 > burstResetTime entry then 0 else burstCount entry) + 2"
proof -
  obtain r1 s1 where p1: "rateLimiter c (clock req 0) store = (r1, s1)"
    by (cases "rateLimiter c (clock req 0) store")
  obtain r2 s2 where p2: "rateLimiter c (clock req (Suc 0)) s1 = (r2, s2)"
    by (cases "rateLimiter c (clock req (Suc 0)) s1")
  have n: "r1 = Next" "r2 = Next" "s2 = store'"
    using disp auth c p1 p2
    by (auto simp: dispatch_auth split: limiter_result.splits)
  from rateLimiter_entry_after[OF p1 entry] n obtain e1 where e1: "map_of s1 c = Some e1"
    "resetTime e1 = (if clock req 0 > resetTime entry then clock req 0 + windowMs else resetTime entry)"
    "burstResetTime e1 = (if clock req 0 > burstResetTime entry then clock req 0 + burstWindowMs
        else burstResetTime entry)"
    "count e1 = (if clock req 0 > resetTime entry then 0 else count entry) + 1"
    "burstCount e1 = (if clock req 0 > burstResetTime entry then 0 else burstCount entry) + 1"
    by auto
  have e1': "e1 = (case map_of s1 c of None \<Rightarrow> newEntry (clock req (Suc 0)) | Some e \<Rightarrow> e)"
    using e1(1) by simp
  from rateLimiter_entry_after[OF p2 e1'] n obtain e2 where e2: "map_of s2 c = Some e2"
    "count e2 = (if clock req (Suc 0) > resetTime e1 then 0 else count e1) + 1"
    "burstCount e2 = (if clock req (Suc 0) > burstResetTime e1 then 0 else burstCount e1) + 1"
    by auto
  have "\<not> clock req (Suc 0) > resetTime e1" "\<not> clock req (Suc 0) > burstResetTime e1"
    using b1 b2 e1(2,3) by simp_all
  then show ?thesis
    using e2 e1(4,5) n(3) by simp
qed

lemma auth_burst_budget:
  assumes none: "map_of store c = None"
    and len: "length reqs = 2"
    and auth: "\<forall>r\<in>set (reqs @ [req]). underAuth r \<and> clientIdOf (ip r) = c"
    and within: "\<forall>t\<in>set (readings (reqs @ [req])). t \<le> hd (readings reqs) + burstWindowMs"
  shows "fst (serveHttp (reqs @ [req]) store) =
     [Reached AuthRoutes, Reached AuthRoutes,
      Blocked (TooManyRequests ''Too many requests in a short time. Please try again later.''
         (ceilSeconds (hd (readings reqs) + burstWindowMs - clock req (Suc 0))))]"
proof -
  let ?a = "clock req 0" and ?b = "clock req (Suc 0)"
  let ?ts = "readings reqs @ [?a]"
  let ?msg = "TooManyRequests ''Too many requests in a short time. Please try again later.''
         (ceilSeconds (hd (readings reqs) + burstWindowMs - ?b))"
  have l4: "length (readings reqs) = 4" using len by (simp add: length_readings)
  then have hd: "hd ?ts = hd (readings reqs)" by (cases "readings reqs") simp_all
  have "length ?ts = 5" "\<forall>t\<in>set ?ts. t \<le> hd ?ts + burstWindowMs"
    "?b \<le> hd ?ts + burstWindowMs"
    using l4 within unfolding hd by (simp_all add: readings_snoc)
  from burst_window_part[OF none this]
  have "decisions c (?ts @ [?b]) store = replicate 5 Next @
        [TooManyRequests ''Too many requests in a short time. Please try again later.''
              (ceilSeconds (hd ?ts + burstWindowMs - ?b))]" .
  then have "decisions c (readings reqs @ [?a, ?b]) store =
        replicate (length (readings reqs)) Next @ [Next, ?msg]"
    unfolding hd l4 by (simp add: numeral_eq_Suc)
  from decisions_split[OF this]
  have d4: "decisions c (readings reqs) store = replicate (length (readings reqs)) Next"
    and d2: "decisions c [?a, ?b] (snd (serveAll (map (Pair c) (readings reqs)) store)) = [Next, ?msg]"
    by simp_all
  have adm: "fst (serveHttp reqs store) = replicate (length reqs) (Reached AuthRoutes) \<and>
         snd (serveHttp reqs store) = snd (serveAll (map (Pair c) (readings reqs)) store)"
    using auth d4 by (intro serveHttp_auth_admitted) simp_all
  let ?s4 = "snd (serveHttp reqs store)"
  have d2': "decisions c [?a, ?b] ?s4 = [Next, ?msg]" using d2 adm by simp
  obtain s5 where p1: "rateLimiter c ?a ?s4 = (Next, s5)"
    using d2' by (cases "rateLimiter c ?a ?s4") (simp add: decisions_Cons)
  obtain s6 where p2: "rateLimiter c ?b s5 = (?msg, s6)"
    using d2' p1 by (cases "rateLimiter c ?b s5") (simp add: decisions_Cons decisions_single)
  have "fst (dispatch appStack req 0 ?s4) = Blocked ?msg"
    using auth by (simp add: dispatch_auth p1 p2)
  then show ?thesis
    using adm len by (simp add: serveHttp_append serveHttp_single numeral_eq_Suc del: serveHttp.simps)
qed

lemma auth_sustained_budget:
  assumes none: "map_of store c = None"
    and len: "length reqs = 5"
    and auth: "\<forall>r\<in>set (reqs @ [req]). underAuth r \<and> clientIdOf (ip r) = c"
    and within: "\<forall>t\<in>set (readings reqs @ [clock req 0]). t \<le> hd (readings reqs) + windowMs"
    and spaced: "burstSpaced (hd (readings reqs) + burstWindowMs) 0 (readings reqs)"
  shows "\<exists>msg r. fst (serveHttp (reqs @ [req]) store) =
     replicate 5 (Reached AuthRoutes) @ [Blocked (TooManyRequests msg r)]"
proof -
  let ?a = "clock req 0"
  have l10: "length (readings reqs) = 10" using len by (simp add: length_readings)
  obtain msg r where "decisions c (readings reqs @ [?a]) store =
        replicate 10 Next @ [TooManyRequests msg r]"
    using sustained_window_part[OF none l10 _ spaced, of ?a] within by auto
  then have "decisions c (readings reqs @ [?a]) store =
        replicate (length (readings reqs)) Next @ [TooManyRequests msg r]"
    unfolding l10 .
  from decisions_split[OF this]
  have d10: "decisions c (readings reqs) store = replicate (length (readings reqs)) Next"
    and d1: "decisions c [?a] (snd (serveAll (map (Pair c) (readings reqs)) store)) =
               [TooManyRequests msg r]"
    by simp_all
  have adm: "fst (serveHttp reqs store) = replicate (length reqs) (Reached AuthRoutes) \<and>
         snd (serveHttp reqs store) = snd (serveAll (map (Pair c) (readings reqs)) store)"
    using auth d10 by (intro serveHttp_auth_admitted) simp_all
  let ?s10 = "snd (serveHttp reqs store)"
  obtain s11 where p1: "rateLimiter c ?a ?s10 = (TooManyRequests msg r, s11)"
    using d1 adm by (cases "rateLimiter c ?a ?s10") (simp add: decisions_single)
  have "fst (dispatch appStack req 0 ?s10) = Blocked (TooManyRequests msg r)"
    using auth by (simp add: dispatch_auth p1)
  then have "fst (serveHttp (reqs @ [req]) store) =
     replicate 5 (Reached AuthRoutes) @ [Blocked (TooManyRequests msg r)]"
    using adm len by (simp add: serveHttp_append serveHttp_single del: serveHttp.simps)
  then show ?thesis by blast
qed

text \<open>
  Claim C10. A request under \<open>/auth\<close> runs the limiter twice before it reaches the auth
  router. If it reaches the router and the second run meets no lapsed window, both counters
  are two more than their lazily reset values. Hence, for a client without window state:
  of three auth requests within one burst window the first two reach the router and the
  third is rejected by the limiter's second run (two admitted instead of five); and after
  five auth requests within one sustained window, spread so that no limiter run meets a
  full burst window, a sixth within that window is rejected (five admitted instead of ten).
  A request under \<open>/users\<close> runs the limiter once.
\<close>

theorem auth_requests_pass_rate_limiter_twice:
  assumes "underAuth req" and "c = clientIdOf (ip req)"
  shows "dispatch appStack req 0 store =
      (case rateLimiter c (clock req 0) store of
         (Next, store1) \<Rightarrow>
           (case rateLimiter c (clock req (Suc 0)) store1 of
              (Next, store2) \<Rightarrow> (Reached AuthRoutes, store2)
            | (TooManyRequests msg r, store2) \<Rightarrow> (Blocked (TooManyRequests msg r), store2))
       | (TooManyRequests msg r, store1) \<Rightarrow> (Blocked (TooManyRequests msg r), store1))
    \<and> (dispatch appStack req 0 store = (Reached AuthRoutes, store') \<and>
        entry = (case map_of store c of None \<Rightarrow> newEntry (clock req 0) | Some e \<Rightarrow> e) \<and>
        clock req (Suc 0) \<le>
          (if clock req 0 > resetTime entry then clock req 0 + windowMs else resetTime entry) \<and>
        clock req (Suc 0) \<le>
          (if clock req 0 > burstResetTime entry then clock req 0 + burstWindowMs
           else burstResetTime entry) \<longrightarrow>
        (\<exists>entry'. map_of store' c = Some entry' \<and>
           count entry' = (if clock req 0 > resetTime entry then 0 else count entry) + 2 \<and>
           burstCount entry' =
             (if clock req 0 > burstResetTime entry then 0 else burstCount entry) + 2))
    \<and> (map_of store c = None \<and> length reqs = 2 \<and>
        (\<forall>r\<in>set reqs. underAuth r \<and> clientIdOf (ip r) = c) \<and>
        (\<forall>t\<in>set (readings (reqs @ [req])). t \<le> hd (readings reqs) + burstWindowMs) \<longrightarrow>
        fst (serveHttp (reqs @ [req]) store) =
          [Reached AuthRoutes, Reached AuthRoutes,
           Blocked (TooManyRequests ''Too many requests in a short time. Please try again later.''
             (ceilSeconds (hd (readings reqs) + burstWindowMs - clock req (Suc 0))))])
    \<and> (map_of store c = None \<and> length reqs' = 5 \<and>
        (\<forall>r\<in>set reqs'. underAuth r \<and> clientIdOf (ip r) = c) \<and>
        (\<forall>t\<in>set (readings reqs' @ [clock req 0]). t \<le> hd (readings reqs') + windowMs) \<and>
        burstSpaced (hd (readings reqs') + burstWindowMs) 0 (readings reqs') \<longrightarrow>
        (\<exists>msg r. fst (serveHttp (reqs' @ [req]) store) =
           replicate 5 (Reached AuthRoutes) @ [Blocked (TooManyRequests msg r)]))
    \<and> (mountMatches (Mounted ''/users'') other \<longrightarrow>
        dispatch appStack other 0 store =
          (case rateLimiter (clientIdOf (ip other)) (clock other 0) store of
             (Next, store1) \<Rightarrow> (Reached UserRoutes, store1)
           | (TooManyRequests msg r, store1) \<Rightarrow> (Blocked (TooManyRequests msg r), store1)))"
proof (intro conjI impI)
  show "dispatch appStack req 0 store =
      (case rateLimiter c (clock req 0) store of
         (Next, store1) \<Rightarrow>
           (case rateLimiter c (clock req (Suc 0)) store1 of
              (Next, store2) \<Rightarrow> (Reached AuthRoutes, store2)
            | (TooManyRequests msg r, store2) \<Rightarrow> (Blocked (TooManyRequests msg r), store2))
       | (TooManyRequests msg r, store1) \<Rightarrow> (Blocked (TooManyRequests msg r), store1))"
    unfolding assms(2) using assms(1) by (rule dispatch_auth)
next
  assume H: "dispatch appStack req 0 store = (Reached AuthRoutes, store') \<and>
        entry = (case map_of store c of None \<Rightarrow> newEntry (clock req 0) | Some e \<Rightarrow> e) \<and>
        clock req (Suc 0) \<le>
          (if clock req 0 > resetTime entry then clock req 0 + windowMs else resetTime entry) \<and>
        clock req (Suc 0) \<le>
          (if clock req 0 > burstResetTime entry then clock req 0 + burstWindowMs
           else burstResetTime entry)"
  show "\<exists>entry'. map_of store' c = Some entry' \<and>
           count entry' = (if clock req 0 > resetTime entry then 0 else count entry) + 2 \<and>
           burstCount entry' =
             (if clock req 0 > burstResetTime entry then 0 else burstCount entry) + 2"
    by (rule auth_twice_counters[OF assms(1) assms(2) H[THEN conjunct1]
          H[THEN conjunct2, THEN conjunct1] H[THEN conjunct2, THEN conjunct2, THEN conjunct1]
          H[THEN conjunct2, THEN conjunct2, THEN conjunct2]])
next
  assume "map_of store c = None \<and> length reqs = 2 \<and>
        (\<forall>r\<in>set reqs. underAuth r \<and> clientIdOf (ip r) = c) \<and>
        (\<forall>t\<in>set (readings (reqs @ [req])). t \<le> hd (readings reqs) + burstWindowMs)"
  then show "fst (serveHttp (reqs @ [req]) store) =
          [Reached AuthRoutes, Reached AuthRoutes,
           Blocked (TooManyRequests ''Too many requests in a short time. Please try again later.''
             (ceilSeconds (hd (readings reqs) + burstWindowMs - clock req (Suc 0))))]"
    using assms by (intro auth_burst_budget[where c=c]) simp_all
next
  assume "map_of store c = None \<and> length reqs' = 5 \<and>
        (\<forall>r\<in>set reqs'. underAuth r \<and> clientIdOf (ip r) = c) \<and>
        (\<forall>t\<in>set (readings reqs' @ [clock req 0]). t \<le> hd (readings reqs') + windowMs) \<and>
        burstSpaced (hd (readings reqs') + burstWindowMs) 0 (readings reqs')"
  then show "\<exists>msg r. fst (serveHttp (reqs' @ [req]) store) =
           replicate 5 (Reached AuthRoutes) @ [Blocked (TooManyRequests msg r)]"
    using assms by (intro auth_sustained_budget[where c=c]) simp_all
next
  assume "mountMatches (Mounted ''/users'') other"
  then show "dispatch appStack other 0 store =
          (case rateLimiter (clientIdOf (ip other)) (clock other 0) store of
             (Next, store1) \<Rightarrow> (Reached UserRoutes, store1)
           | (TooManyRequests msg r, store1) \<Rightarrow> (Blocked (TooManyRequests msg r), store1))"
    by (rule dispatch_users)
qed

lemma lowerPath_samples:
  "lowerPath ''/auth/login'' = ''/auth/login''"
  "lowerPath ''/users/1'' = ''/users/1''"
  "lowerPath ''/AUTH/Login'' = ''/auth/login''"
  "lowerPath ''/Health/'' = ''/health/''"
  by (simp_all add: lowerPath_def lowerChar_def)

lemmas limiter_eval = appStack_def mountMatches_def clientIdOf_def rateLimiter_def
        resetWindows_def admit_def newEntry_def windowMs_def burstWindowMs_def burstMax_def
        maxRequests_def authReq_def underAuth_def readings_def ceilSeconds_def
        lowerPath_samples

theorem auth_requests_pass_rate_limiter_twice_witness:
  "underAuth (authReq 9000) \<and> ''10.0.0.1'' = clientIdOf (ip (authReq 9000)) \<and>
   dispatch appStack (authReq 9000) 0 [] =
     (Reached AuthRoutes,
      [(''10.0.0.1'', \<lparr>count = 2, resetTime = 69000, burstCount = 2, burstResetTime = 19000\<rparr>)]) \<and>
   list_all (\<lambda>t. t \<le> hd (readings [authReq 0, authReq 1]) + burstWindowMs)
     (readings ([authReq 0, authReq 1] @ [authReq 9000])) \<and>
   fst (serveHttp ([authReq 0, authReq 1] @ [authReq 9000]) []) =
     [Reached AuthRoutes, Reached AuthRoutes,
      Blocked (TooManyRequests ''Too many requests in a short time. Please try again later.'' 1)] \<and>
   burstSpaced (hd (readings [authReq 0, authReq 1, authReq 10001, authReq 10002, authReq 20003])
       + burstWindowMs) 0
     (readings [authReq 0, authReq 1, authReq 10001, authReq 10002, authReq 20003]) \<and>
   (\<exists>msg r. fst (serveHttp
        ([authReq 0, authReq 1, authReq 10001, authReq 10002, authReq 20003] @ [authReq 50000]) []) =
      replicate 5 (Reached AuthRoutes) @ [Blocked (TooManyRequests msg r)]) \<and>
   mountMatches (Mounted ''/users'') ((authReq 9000)\<lparr>path := ''/users/1''\<rparr>) \<and>
   dispatch appStack ((authReq 9000)\<lparr>path := ''/users/1''\<rparr>) 0 [] =
     (Reached UserRoutes,
      [(''10.0.0.1'', \<lparr>count = 1, resetTime = 69000, burstCount = 1, burstResetTime = 19000\<rparr>)])"
proof -
  have a: "underAuth (authReq t)" "''10.0.0.1'' = clientIdOf (ip (authReq t))" for t
    by (simp_all add: authReq_def underAuth_def mountMatches_def clientIdOf_def
          lowerPath_samples)
  have d: "dispatch appStack (authReq 9000) 0 [] =
     (Reached AuthRoutes,
      [(''10.0.0.1'', \<lparr>count = 2, resetTime = 69000, burstCount = 2, burstResetTime = 19000\<rparr>)])"
    by (simp add: limiter_eval)
  have w: "\<forall>t\<in>set (readings ([authReq 0, authReq 1] @ [authReq 9000])).
       t \<le> hd (readings [authReq 0, authReq 1]) + burstWindowMs"
    by (simp add: limiter_eval)
  have sp: "burstSpaced (hd (readings [authReq 0, authReq 1, authReq 10001, authReq 10002, authReq 20003])
       + burstWindowMs) 0
     (readings [authReq 0, authReq 1, authReq 10001, authReq 10002, authReq 20003])"
    by (simp add: limiter_eval)
  have b: "fst (serveHttp ([authReq 0, authReq 1] @ [authReq 9000]) []) =
     [Reached AuthRoutes, Reached AuthRoutes,
      Blocked (TooManyRequests ''Too many requests in a short time. Please try again later.'' 1)]"
    using auth_requests_pass_rate_limiter_twice [OF a, of 9000 "[]" "[]" "newEntry 9000"
        "[authReq 0, authReq 1]" "[]" "authReq 0"] w a
    by (simp add: limiter_eval del: serveHttp.simps)
  have s: "\<exists>msg r. fst (serveHttp
        ([authReq 0, authReq 1, authReq 10001, authReq 10002, authReq 20003] @ [authReq 50000]) []) =
      replicate 5 (Reached AuthRoutes) @ [Blocked (TooManyRequests msg r)]"
    using auth_requests_pass_rate_limiter_twice [OF a, of 50000 "[]" "[]" "newEntry 50000" "[]"
        "[authReq 0, authReq 1, authReq 10001, authReq 10002, authReq 20003]" "authReq 0"] sp a
    by (simp add: limiter_eval del: serveHttp.simps)
  have w': "list_all (\<lambda>t. t \<le> hd (readings [authReq 0, authReq 1]) + burstWindowMs)
     (readings ([authReq 0, authReq 1] @ [authReq 9000]))"
    using w by (simp only: list_all_iff)
  have m: "mountMatches (Mounted ''/users'') ((authReq 9000)\<lparr>path := ''/users/1''\<rparr>)"
    by (simp add: limiter_eval)
  have o: "dispatch appStack ((authReq 9000)\<lparr>path := ''/users/1''\<rparr>) 0 [] =
     (Reached UserRoutes,
      [(''10.0.0.1'', \<lparr>count = 1, resetTime = 69000, burstCount = 1, burstResetTime = 19000\<rparr>)])"
    using auth_requests_pass_rate_limiter_twice [OF a, of 9000 "[]" "[]" "newEntry 9000" "[]" "[]"
        "(authReq 9000)\<lparr>path := ''/users/1''\<rparr>"] m
    by (simp add: limiter_eval)
  show ?thesis using a d w' sp b s m o by blast
qed

text \<open>A path under \<open>/auth\<close> written in capitals is an auth route as well and runs the
  limiter twice.\<close>

lemma capital_auth_path_runs_limiter_twice:
  "underAuth ((authReq 9000)\<lparr>path := ''/AUTH/Login''\<rparr>) \<and>
   dispatch appStack ((authReq 9000)\<lparr>path := ''/AUTH/Login''\<rparr>) 0 [] =
     (Reached AuthRoutes,
      [(''10.0.0.1'', \<lparr>count = 2, resetTime = 69000, burstCount = 2, burstResetTime = 19000\<rparr>)])"
  by (simp add: limiter_eval)


section \<open>Properties of the cache\<close>

subsection \<open>Capacity and eviction\<close>

lemma lruDelete_length:
  "map_of items k = Some x \<Longrightarrow> length (lruDelete k items) < length items"
  by (induction items) (auto simp: lruDelete_def less_Suc_eq_le split: if_splits)

lemma lruDelete_length_le: "length (lruDelete k items) \<le> length items"
  by (simp add: lruDelete_def)

lemma lruGet_length: "length (snd (lruGet opts k now items)) \<le> length items"
  using lruDelete_length[of items k]
  by (auto simp: lruGet_def lruDelete_length_le Suc_leI split: option.splits)

lemma lruSet_length:
  "length items \<le> opt_max opts \<Longrightarrow> 0 < opt_max opts \<Longrightarrow>
   length (lruSet opts k v now items) \<le> opt_max opts"
  using lruDelete_length[of items k]
  by (auto simp: lruSet_def split: option.splits)

lemma cleanStaleLoop_length: "length (cleanStaleLoop now es items) \<le> length items"
proof (induction es arbitrary: items)
  case Nil
  then show ?case by simp
next
  case (Cons e es)
  obtain k v where e: "e = (k, v)" by (cases e)
  show ?case
    unfolding e using Cons.IH[of "lruDelete k items"] Cons.IH[of items] lruDelete_length_le[of k items]
    by (auto simp del: cleanStaleLoop.simps simp add: cleanStaleLoop.simps(2)[of now k v es items])
qed

lemma cacheCallStep_size:
  "cacheSize cm \<le> 1000 \<Longrightarrow> cacheSize (cacheCallStep call cm) \<le> 1000"
proof (cases call)
  case (Pair now c)
  assume a: "cacheSize cm \<le> 1000"
  show ?thesis
  proof (cases c)
    case (Get k)
    then show ?thesis
      using a Pair lruGet_length[of cacheOptions k now "cache cm"]
      by (auto simp: cacheSize_def cacheGet_def cacheGetEntry_def split: prod.splits option.splits)
  next
    case (Set k u)
    then show ?thesis
      using a Pair lruSet_length[of "cache cm" cacheOptions k _ now]
      by (simp add: cacheSize_def cacheSet_def cacheOptions_def)
  next
    case CleanStaleEntries
    then show ?thesis
      using a Pair cleanStaleLoop_length[of now _ "cache cm"]
      by (simp add: cacheSize_def cleanStaleEntries_def) (meson order_trans)
  qed (use a Pair in \<open>simp_all add: cacheSize_def cacheClear_def recordResponseTime_def Let_def\<close>)
qed

lemma cacheRun_size:
  "cacheSize cm \<le> 1000 \<Longrightarrow> cacheSize (cacheRun calls cm) \<le> 1000"
  unfolding cacheRun_def
  by (induction calls arbitrary: cm) (simp_all add: cacheCallStep_size)

lemma evict_at_capacity:
  assumes "cacheSize cm = 1000" and "map_of (cache cm) key = None"
  shows "\<exists>lru rest. cache cm = lru # rest \<and>
     cache (cacheSet key user now cm) = rest @ [(key, \<lparr>data = user, timestamp = now\<rparr>, now)]"
proof -
  obtain lru rest where c: "cache cm = lru # rest"
    using assms(1) by (cases "cache cm") (simp_all add: cacheSize_def)
  have "cache (cacheSet key user now cm) = rest @ [(key, \<lparr>data = user, timestamp = now\<rparr>, now)]"
    using assms c by (simp add: cacheSet_def lruSet_def cacheOptions_def cacheSize_def)
  with c show ?thesis by blast
qed

text \<open>The items of the cache stand in the order of their last accesses: every access moves
  its item to the end, and nothing else changes the order.\<close>

lemma lastAccess_snoc:
  "lastAccess k (log @ [k']) = (if k = k' then Suc (length log) else lastAccess k log)"
  by (simp add: lastAccess_def)

lemma lastAccess_le: "lastAccess k log \<le> length log"
  unfolding lastAccess_def
  by (metis length_dropWhile_le length_rev)

lemma recencyOrdered_delete:
  "recencyOrdered log items \<Longrightarrow> recencyOrdered log (lruDelete k items)"
  by (auto simp: recencyOrdered_def lruDelete_def list_all_iff sorted_wrt_filter)

lemma recencyOrdered_tl: "recencyOrdered log items \<Longrightarrow> recencyOrdered log (tl items)"
  by (cases items) (auto simp: recencyOrdered_def)

lemma recencyOrdered_access:
  assumes "recencyOrdered log items" and "k \<notin> fst ` set items"
  shows "recencyOrdered (log @ [k]) (items @ [(k, x)])"
proof -
  have a: "lastAccess (fst item) (log @ [k]) = lastAccess (fst item) log" if "item \<in> set items" for item
    using that assms(2) by (auto simp: lastAccess_snoc)
  have "sorted_wrt (\<lambda>a b. lastAccess (fst a) (log @ [k]) < lastAccess (fst b) (log @ [k])) items"
    using assms(1) a
    by (auto simp: recencyOrdered_def intro: sorted_wrt_mono_rel[rotated])
  moreover have "\<forall>item\<in>set items. lastAccess (fst item) (log @ [k]) < lastAccess k (log @ [k])"
    using a lastAccess_le[of _ log] by (auto simp: lastAccess_snoc less_Suc_eq_le)
  ultimately show ?thesis
    using assms(1) a
    by (auto simp: recencyOrdered_def sorted_wrt_append list_all_iff lastAccess_snoc)
qed

lemma lruDelete_keys: "k \<notin> fst ` set (lruDelete k items)"
  by (auto simp: lruDelete_def)

lemma recencyOrdered_cleanStaleLoop:
  "recencyOrdered log items \<Longrightarrow> recencyOrdered log (cleanStaleLoop now es items)"
  by (induction es arbitrary: items) (auto simp: recencyOrdered_delete)

lemma cacheCallStep_recency:
  assumes "recencyOrdered log (cache cm)"
  shows "recencyOrdered (log @ cacheCallAccess call cm) (cache (cacheCallStep call cm))"
proof -
  obtain now c where call: "call = (now, c)" by (cases call)
  have moved: "recencyOrdered (log @ [k]) (lruDelete k (cache cm) @ [(k, x)])" for k x
    by (rule recencyOrdered_access[OF recencyOrdered_delete[OF assms] lruDelete_keys])
  show ?thesis
  proof (cases c)
    case (Get k)
    show ?thesis
    proof (cases "map_of (cache cm) k")
      case None
      then show ?thesis
        using assms call Get by (simp add: cacheGet_def cacheGetEntry_def lruGet_def)
    next
      case (Some vs)
      obtain v start where vs: "vs = (v, start)" by (cases vs)
      show ?thesis
        using assms call Get Some vs moved[of k "(v, now)"]
        by (simp add: cacheGet_def cacheGetEntry_def lruGet_def cacheOptions_def
              recencyOrdered_delete)
    qed
  next
    case (Set k u)
    show ?thesis
    proof (cases "map_of (cache cm) k")
      case None
      then have fresh: "k \<notin> fst ` set (cache cm)" by (simp add: map_of_eq_None_iff)
      then have "k \<notin> fst ` set (tl (cache cm))"
        by (cases "cache cm") auto
      then show ?thesis
        using assms call Set None fresh
          recencyOrdered_access[OF recencyOrdered_tl[OF assms], of k]
          recencyOrdered_access[OF assms, of k]
        by (simp add: cacheSet_def lruSet_def)
    next
      case (Some old)
      then show ?thesis
        using call Set moved[of k] by (simp add: cacheSet_def lruSet_def)
    qed
  next
    case CleanStaleEntries
    then show ?thesis
      using assms call by (simp add: cleanStaleEntries_def recencyOrdered_cleanStaleLoop)
  next
    case Clear
    then show ?thesis using call by (simp add: cacheClear_def recencyOrdered_def)
  qed (use assms call in \<open>simp_all add: recordResponseTime_def Let_def\<close>)
qed

lemma cacheRun_recency:
  "recencyOrdered log (cache cm) \<Longrightarrow>
   recencyOrdered (log @ accessLog calls cm) (cache (cacheRun calls cm))"
proof (induction calls arbitrary: log cm)
  case Nil
  then show ?case by (simp add: cacheRun_def)
next
  case (Cons call calls)
  have "recencyOrdered (log @ cacheCallAccess call cm) (cache (cacheCallStep call cm))"
    using Cons.prems by (rule cacheCallStep_recency)
  from Cons.IH[OF this] show ?case by (simp add: cacheRun_def)
qed

text \<open>
  Claim C8. After any run of calls on a new cache manager the cache holds at most 1000
  entries. When it holds 1000 entries and \<open>key\<close> is not among them, \<open>set\<close> removes exactly
  the first item, keeps all other items in their order and appends the new entry; the
  removed item is the least recently accessed one: it has been accessed in the run, and
  its last access (a \<open>set\<close>, or a \<open>get\<close> that returned it) came before the last access of
  every item that remains.
\<close>

theorem cache_bounded_and_evicts_lru:
  assumes "cm = cacheRun calls newCacheManager" and "log = accessLog calls newCacheManager"
  shows "cacheSize cm \<le> 1000 \<and>
     (cacheSize cm = 1000 \<and> map_of (cache cm) key = None \<longrightarrow>
        (\<exists>lru rest. cache cm = lru # rest \<and>
            cache (cacheSet key user now cm) =
              rest @ [(key, \<lparr>data = user, timestamp = now\<rparr>, now)] \<and>
            0 < lastAccess (fst lru) log \<and>
            (\<forall>item\<in>set rest. lastAccess (fst lru) log < lastAccess (fst item) log)))"
proof (intro conjI impI)
  show "cacheSize cm \<le> 1000"
    unfolding assms(1) by (rule cacheRun_size) (simp add: cacheSize_def newCacheManager_def)
next
  assume a: "cacheSize cm = 1000 \<and> map_of (cache cm) key = None"
  then obtain lru rest where e: "cache cm = lru # rest"
     "cache (cacheSet key user now cm) = rest @ [(key, \<lparr>data = user, timestamp = now\<rparr>, now)]"
    using evict_at_capacity[of cm key user now] by blast
  have "recencyOrdered [] (cache newCacheManager)"
    by (simp add: recencyOrdered_def newCacheManager_def)
  then have "recencyOrdered ([] @ accessLog calls newCacheManager)
      (cache (cacheRun calls newCacheManager))"
    by (rule cacheRun_recency)
  then have "recencyOrdered log (lru # rest)"
    using assms e(1) by simp
  then have "0 < lastAccess (fst lru) log \<and>
      (\<forall>item\<in>set rest. lastAccess (fst lru) log < lastAccess (fst item) log)"
    by (simp add: recencyOrdered_def)
  then show "\<exists>lru rest. cache cm = lru # rest \<and>
            cache (cacheSet key user now cm) =
              rest @ [(key, \<lparr>data = user, timestamp = now\<rparr>, now)] \<and>
            0 < lastAccess (fst lru) log \<and>
            (\<forall>item\<in>set rest. lastAccess (fst lru) log < lastAccess (fst item) log)"
    using e by blast
qed

text \<open>The cache filled with 1000 distinct keys, the first of which is then read: the least
  recently accessed entry is the second key, not the first.\<close>

lemma cacheRun_snoc: "cacheRun (calls @ [call]) cm = cacheCallStep call (cacheRun calls cm)"
  by (simp add: cacheRun_def)

lemma fillCalls_Suc: "fillCalls (Suc n) = fillCalls n @ [(int n, Set (fillKey n) john)]"
  by (simp add: fillCalls_def)

lemma fillKey_fresh:
  "map_of (map (\<lambda>i. (fillKey i, f i)) [0..<n]) (fillKey n) = None"
  by (auto simp: map_of_eq_None_iff fillKey_def image_iff)

lemma cacheRun_fillCalls:
  "n \<le> 1000 \<Longrightarrow>
   cacheRun (fillCalls n) newCacheManager =
     newCacheManager\<lparr>cache :=
       map (\<lambda>i. (fillKey i, \<lparr>data = john, timestamp = int i\<rparr>, int i)) [0..<n]\<rparr>"
proof (induction n)
  case 0
  then show ?case by (simp add: fillCalls_def cacheRun_def newCacheManager_def)
next
  case (Suc n)
  then show ?case
    by (simp add: fillCalls_Suc cacheRun_snoc cacheSet_def lruSet_def fillKey_fresh
          cacheOptions_def)
qed

lemma fillKey_inj: "fillKey i = fillKey j \<longleftrightarrow> i = j"
proof
  assume "fillKey i = fillKey j"
  then have "length (fillKey i) = length (fillKey j)" by simp
  then show "i = j" by (simp add: fillKey_def)
qed simp

lemma fill_then_read:
  assumes "0 < n" and "n \<le> 1000" and "0 \<le> t" and "t \<le> CACHE_TTL"
  shows "cache (cacheRun (fillCalls n @ [(t, Get (fillKey 0))]) newCacheManager) =
     map (\<lambda>i. (fillKey i, \<lparr>data = john, timestamp = int i\<rparr>, int i)) [Suc 0..<n] @
     [(fillKey 0, \<lparr>data = john, timestamp = 0\<rparr>, t)]"
proof -
  let ?f = "\<lambda>i. (fillKey i, \<lparr>data = john, timestamp = int i\<rparr>, int i)"
  have u: "[0..<n] = 0 # [Suc 0..<n]" using assms(1) by (simp add: upt_conv_Cons)
  have d: "filter (\<lambda>item. fst item \<noteq> fillKey 0) (map ?f [Suc 0..<n]) = map ?f [Suc 0..<n]"
    by (rule filter_True) (auto simp: fillKey_inj)
  have c: "cache (cacheRun (fillCalls n) newCacheManager) = ?f 0 # map ?f [Suc 0..<n]"
    using assms(2) by (simp add: cacheRun_fillCalls u)
  show ?thesis
    using assms(3,4)
    by (simp add: cacheRun_snoc cacheGet_def cacheGetEntry_def lruGet_def c isStale_def
          cacheOptions_def lruDelete_def d)
qed

lemma fill_then_read_facts:
  assumes "1 < n" and "n \<le> 1000" and "0 \<le> t" and "t \<le> CACHE_TTL"
  shows "cacheSize (cacheRun (fillCalls n @ [(t, Get (fillKey 0))]) newCacheManager) = n"
    and "map_of (cache (cacheRun (fillCalls n @ [(t, Get (fillKey 0))]) newCacheManager))
           ''user:7'' = None"
    and "fst (hd (cache (cacheRun (fillCalls n @ [(t, Get (fillKey 0))]) newCacheManager))) =
           fillKey 1"
proof -
  let ?cm = "cacheRun (fillCalls n @ [(t, Get (fillKey 0))]) newCacheManager"
  have c': "cache ?cm =
     map (\<lambda>i. (fillKey i, \<lparr>data = john, timestamp = int i\<rparr>, int i)) [Suc 0..<n] @
     [(fillKey 0, \<lparr>data = john, timestamp = 0\<rparr>, t)]"
    using assms(1) by (intro fill_then_read assms) simp
  show "cacheSize ?cm = n" using assms(1) by (simp add: cacheSize_def c')
  show "map_of (cache ?cm) ''user:7'' = None"
    unfolding c' by (auto simp: map_of_eq_None_iff fillKey_def image_iff)
  have "[Suc 0..<n] = Suc 0 # [Suc (Suc 0)..<n]" using assms(1) by (simp add: upt_conv_Cons)
  then show "fst (hd (cache ?cm)) = fillKey 1" unfolding c' by simp
qed

theorem cache_bounded_and_evicts_lru_witness:
  "cacheSize (cacheRun (fillCalls 1000 @ [(1000, Get (fillKey 0))]) newCacheManager) = 1000 \<and>
   map_of (cache (cacheRun (fillCalls 1000 @ [(1000, Get (fillKey 0))]) newCacheManager))
     ''user:7'' = None \<and>
   fst (hd (cache (cacheRun (fillCalls 1000 @ [(1000, Get (fillKey 0))]) newCacheManager))) =
     fillKey 1 \<and>
   (\<exists>lru rest.
       cache (cacheRun (fillCalls 1000 @ [(1000, Get (fillKey 0))]) newCacheManager) = lru # rest \<and>
       cache (cacheSet ''user:7'' john 1001
          (cacheRun (fillCalls 1000 @ [(1000, Get (fillKey 0))]) newCacheManager)) =
         rest @ [(''user:7'', \<lparr>data = john, timestamp = 1001\<rparr>, 1001)] \<and>
       0 < lastAccess (fst lru)
             (accessLog (fillCalls 1000 @ [(1000, Get (fillKey 0))]) newCacheManager) \<and>
       (\<forall>item\<in>set rest.
           lastAccess (fst lru)
             (accessLog (fillCalls 1000 @ [(1000, Get (fillKey 0))]) newCacheManager)
           < lastAccess (fst item)
             (accessLog (fillCalls 1000 @ [(1000, Get (fillKey 0))]) newCacheManager)))"
proof -
  have b: "(1::nat) < 1000" "(1000::nat) \<le> 1000" "(0::int) \<le> 1000" "(1000::int) \<le> CACHE_TTL"
    by (simp_all add: CACHE_TTL_def)
  note f = fill_then_read_facts [OF b]
  show ?thesis
    using f cache_bounded_and_evicts_lru [OF refl refl,
        of "fillCalls 1000 @ [(1000, Get (fillKey 0))]" "''user:7''" john 1001]
    by blast
qed

text \<open>Under a clock that does not run backwards the items are also in the order of the times
  at which their ages started, so the removed item is one whose age started first.\<close>

lemma accessOrdered_mono: "accessOrdered t items \<Longrightarrow> t \<le> t' \<Longrightarrow> accessOrdered t' items"
  by (auto simp: accessOrdered_def list_all_iff)

lemma accessOrdered_delete: "accessOrdered t items \<Longrightarrow> accessOrdered t (lruDelete k items)"
  by (auto simp: accessOrdered_def lruDelete_def list_all_iff sorted_filter)

lemma accessOrdered_tl: "accessOrdered t items \<Longrightarrow> accessOrdered t (tl items)"
  by (cases items) (auto simp: accessOrdered_def)

lemma accessOrdered_snoc:
  "accessOrdered t items \<Longrightarrow> accessOrdered t (items @ [(k, v, t)])"
  by (auto simp: accessOrdered_def list_all_iff sorted_append)

lemma accessOrdered_cleanStaleLoop:
  "accessOrdered t items \<Longrightarrow> accessOrdered t (cleanStaleLoop now es items)"
  by (induction es arbitrary: items) (auto simp: accessOrdered_delete)

lemma cacheCallStep_ordered:
  assumes "accessOrdered t (cache cm)" and "t \<le> now"
  shows "accessOrdered now (cache (cacheCallStep (now, c) cm))"
proof -
  have o: "accessOrdered now (cache cm)" using assms by (rule accessOrdered_mono)
  show ?thesis
  proof (cases c)
    case (Get k)
    then show ?thesis
      using o accessOrdered_snoc[OF accessOrdered_delete[OF o]]
      by (auto simp: cacheGet_def cacheGetEntry_def lruGet_def cacheOptions_def
            accessOrdered_delete split: option.splits prod.splits if_splits)
  next
    case (Set k u)
    then show ?thesis
      using o accessOrdered_snoc[OF accessOrdered_delete[OF o]]
        accessOrdered_snoc[OF accessOrdered_tl[OF o]] accessOrdered_snoc[OF o]
      by (auto simp: cacheSet_def lruSet_def split: option.splits)
  next
    case CleanStaleEntries
    then show ?thesis
      using o by (simp add: cleanStaleEntries_def accessOrdered_cleanStaleLoop)
  next
    case Clear
    then show ?thesis by (simp add: cacheClear_def accessOrdered_def)
  qed (use o in \<open>simp_all add: recordResponseTime_def Let_def\<close>)
qed

lemma cacheRun_ordered:
  assumes "accessOrdered t (cache cm)" and "sorted (t # map fst calls)"
  shows "accessOrdered (last (t # map fst calls)) (cache (cacheRun calls cm))"
  using assms
proof (induction calls arbitrary: t cm)
  case Nil
  then show ?case by (simp add: cacheRun_def)
next
  case (Cons call calls)
  obtain now c where call: "call = (now, c)" by (cases call)
  have "accessOrdered now (cache (cacheCallStep (now, c) cm))"
    using Cons.prems call by (intro cacheCallStep_ordered[of t]) simp_all
  moreover have "sorted (now # map fst calls)" using Cons.prems(2) call by simp
  ultimately have "accessOrdered (last (now # map fst calls))
      (cache (cacheRun calls (cacheCallStep (now, c) cm)))"
    by (rule Cons.IH)
  then show ?case using call by (simp add: cacheRun_def)
qed

lemma evicted_item_has_oldest_age_start:
  assumes "sorted (map fst calls)" and "cm = cacheRun calls newCacheManager"
  shows "cacheSize cm \<le> 1000 \<and>
     (cacheSize cm = 1000 \<and> map_of (cache cm) key = None \<longrightarrow>
        (\<exists>lru rest. cache cm = lru # rest \<and>
            cache (cacheSet key user now cm) =
              rest @ [(key, \<lparr>data = user, timestamp = now\<rparr>, now)] \<and>
            (\<forall>item\<in>set rest. snd (snd lru) \<le> snd (snd item))))"
proof (intro conjI impI)
  show "cacheSize cm \<le> 1000"
    unfolding assms(2) by (rule cacheRun_size) (simp add: cacheSize_def newCacheManager_def)
next
  assume a: "cacheSize cm = 1000 \<and> map_of (cache cm) key = None"
  then obtain lru rest where e: "cache cm = lru # rest"
     "cache (cacheSet key user now cm) = rest @ [(key, \<lparr>data = user, timestamp = now\<rparr>, now)]"
    using evict_at_capacity[of cm key user now] by blast
  have "\<exists>t. accessOrdered t (cache cm)"
  proof (cases calls)
    case Nil
    then show ?thesis using assms(2) by (simp add: cacheRun_def newCacheManager_def accessOrdered_def)
  next
    case (Cons call calls')
    have "accessOrdered (fst call) (cache newCacheManager)"
      by (simp add: newCacheManager_def accessOrdered_def)
    then have "accessOrdered (last (fst call # map fst calls)) (cache (cacheRun calls newCacheManager))"
      using assms(1) Cons by (intro cacheRun_ordered) simp_all
    then show ?thesis using assms(2) by blast
  qed
  then have "\<forall>item\<in>set rest. snd (snd lru) \<le> snd (snd item)"
    using e(1) by (auto simp: accessOrdered_def)
  then show "\<exists>lru rest. cache cm = lru # rest \<and>
            cache (cacheSet key user now cm) =
              rest @ [(key, \<lparr>data = user, timestamp = now\<rparr>, now)] \<and>
            (\<forall>item\<in>set rest. snd (snd lru) \<le> snd (snd item))"
    using e by blast
qed

subsection \<open>Expiry\<close>

text \<open>After a \<open>get\<close> that found nothing, \<open>has\<close> is false for the same key at the same
  time: the pause of lines 47-56 of the route is never entered.\<close>

lemma cacheHas_after_miss:
  assumes "cacheGet key now cm = (None, cm')"
  shows "\<not> cacheHas key now cm'"
proof -
  have "map_of (lruDelete key items) key = None" for items :: "CacheEntry lru"
    by (induction items) (auto simp: lruDelete_def)
  then show ?thesis
    using assms
    by (auto simp: cacheGet_def cacheGetEntry_def cacheHas_def lruGet_def lruHas_def
          split: option.splits prod.splits if_splits)
qed

lemma map_of_lruDelete:
  "map_of (lruDelete k items) k' = (if k' = k then None else map_of items k')"
  by (induction items) (auto simp: lruDelete_def)

lemma cacheGet_hit:
  assumes "cacheGet key now cm = (Some user, cm')"
  shows "\<exists>entry start. map_of (cache cm) key = Some (entry, start) \<and> data entry = user \<and>
           now - start \<le> CACHE_TTL \<and>
           cm' = cm\<lparr>cache := lruDelete key (cache cm) @ [(key, entry, now)],
                     hits := hits cm + 1\<rparr>"
  using assms
  by (auto simp: cacheGet_def cacheGetEntry_def lruGet_def isStale_def cacheOptions_def
        CACHE_TTL_def split: option.splits prod.splits if_splits)

lemma cacheGet_fresh:
  assumes "map_of (cache cm) key = Some (entry, start)" and "now - start \<le> CACHE_TTL"
  shows "fst (cacheGet key now cm) = Some (data entry)"
  using assms
  by (simp add: cacheGet_def cacheGetEntry_def lruGet_def isStale_def cacheOptions_def)

text \<open>
  A \<open>get\<close> that returns an entry finds it with an age of at most \<open>CACHE_TTL\<close>, moves it to
  the most recently used end, counts a hit and, by \<open>updateAgeOnGet\<close>, starts its age again:
  in the state that this \<open>get\<close> leaves, a further \<open>get\<close> up to \<open>CACHE_TTL\<close> later returns the
  entry once more, however long ago it was inserted.
\<close>

lemma cacheGet_restarts_age:
  assumes "cacheGet key now cm = (Some user, cm')"
  shows "(\<exists>entry start. map_of (cache cm) key = Some (entry, start) \<and> data entry = user \<and>
            now - start \<le> CACHE_TTL \<and>
            cache cm' = lruDelete key (cache cm) @ [(key, entry, now)]) \<and>
         hits cm' = hits cm + 1 \<and>
         (\<forall>now'. now' - now \<le> CACHE_TTL \<longrightarrow> fst (cacheGet key now' cm') = Some user)"
proof -
  from cacheGet_hit[OF assms] obtain entry start where
    e: "map_of (cache cm) key = Some (entry, start)" "data entry = user"
       "now - start \<le> CACHE_TTL"
       "cm' = cm\<lparr>cache := lruDelete key (cache cm) @ [(key, entry, now)], hits := hits cm + 1\<rparr>"
    by blast
  have m: "map_of (cache cm') key = Some (entry, now)"
    unfolding e(4) by (simp add: map_of_lruDelete map_add_def)
  have "\<forall>now'. now' - now \<le> CACHE_TTL \<longrightarrow> fst (cacheGet key now' cm') = Some user"
    using cacheGet_fresh[OF m] e(2) by simp
  then show ?thesis using e by auto
qed

text \<open>
  Claim C1, on the code. An entry inserted at time 0 and read at 50000 is returned again at
  80000, when it is 80000 ms old: more than \<open>CACHE_TTL\<close> after its insertion. The sweeps
  at 29999 and 59999 leave it in place. Without the read at 50000 the lookup at 80000 finds
  nothing: the read has moved the entry's expiry.
\<close>

theorem get_returns_entry_older_than_ttl:
  "fst (cacheGetEntry ''user:1'' 80000
     (cacheRun [(0, Set ''user:1'' john), (29999, CleanStaleEntries), (50000, Get ''user:1''),
                (59999, CleanStaleEntries)] newCacheManager)) =
     Some \<lparr>data = john, timestamp = 0\<rparr> \<and>
   fst (cacheGet ''user:1'' 80000
     (cacheRun [(0, Set ''user:1'' john), (29999, CleanStaleEntries), (50000, Get ''user:1''),
                (59999, CleanStaleEntries)] newCacheManager)) = Some john \<and>
   80000 - 0 > CACHE_TTL \<and>
   fst (cacheGet ''user:1'' 80000
     (cacheRun [(0, Set ''user:1'' john), (29999, CleanStaleEntries),
                (59999, CleanStaleEntries)] newCacheManager)) = None"
  by (simp add: cacheRun_def cacheGet_def cacheGetEntry_def cacheSet_def cleanStaleEntries_def
        lruGet_def lruSet_def lruEntries_def lruDelete_def isStale_def cacheOptions_def
        CACHE_TTL_def newCacheManager_def)

text \<open>The sweep measures the age from the insertion, whatever \<open>get\<close> has done since: it
  deletes the same entry as soon as it runs later than \<open>CACHE_TTL\<close> after the insertion.\<close>

lemma sweep_deletes_by_insertion_time:
  "cache (cacheRun [(0, Set ''user:1'' john), (50000, Get ''user:1''),
      (60001, CleanStaleEntries)] newCacheManager) = []"
  by (simp add: cacheRun_def cacheGet_def cacheGetEntry_def cacheSet_def cleanStaleEntries_def
        lruGet_def lruSet_def lruEntries_def lruDelete_def isStale_def cacheOptions_def
        CACHE_TTL_def newCacheManager_def)

section \<open>Properties of the user service, the queue and the route\<close>

subsection \<open>At most one Backing Store call per key in flight\<close>

lemma svcInv_new: "svcInv (newUserService us)"
  by (simp add: svcInv_def newUserService_def)

lemma getUserById_inv:
  assumes "svcInv svc"
  shows "svcInv (getUserById caller ident svc)"
proof (cases "map_of (pendingRequests svc) ident")
  case (Some p)
  then show ?thesis using assms by (simp add: getUserById_def svcInv_def)
next
  case None
  have a: "\<forall>timer\<in>set (timers svc). fst timer < fetches svc \<and>
            map_of (pendingRequests svc) (snd timer) = Some (fst timer)"
    using assms by (simp add: svcInv_def list_all_iff)
  then have fresh: "ident \<notin> snd ` set (timers svc)" "fetches svc \<notin> fst ` set (timers svc)"
    using None by auto
  show ?thesis
    using None assms a fresh
    by (auto simp: getUserById_def svcInv_def Let_def list_all_iff update_conv')
qed

lemma timerFires_inv:
  assumes "svcInv svc"
  shows "svcInv (snd (timerFires p svc))"
proof (cases "map_of (timers svc) p")
  case None
  then show ?thesis using assms by (simp add: timerFires_def)
next
  case (Some ident)
  have d: "distinct (map fst (timers svc))" "distinct (map snd (timers svc))"
    and a: "\<forall>timer\<in>set (timers svc). fst timer < fetches svc \<and>
            map_of (pendingRequests svc) (snd timer) = Some (fst timer)"
    using assms by (simp_all add: svcInv_def list_all_iff)
  have mem: "(p, ident) \<in> set (timers svc)" using Some by (rule map_of_SomeD)
  have other: "snd timer \<noteq> ident" if "timer \<in> set (timers svc)" "fst timer \<noteq> p" for timer
  proof
    assume "snd timer = ident"
    then have "snd timer = snd (p, ident)" by simp
    with d(2) that(1) mem have "timer = (p, ident)"
      by (meson distinct_map inj_onD)
    with that(2) show False by simp
  qed
  have del: "AList.delete p (timers svc) = filter (\<lambda>timer. fst timer \<noteq> p) (timers svc)"
    by (auto simp: AList.delete_eq case_prod_beta intro: filter_cong)
  have "svcInv (svc\<lparr>timers := filter (\<lambda>timer. fst timer \<noteq> p) (timers svc),
                   pendingRequests := AList.delete ident (pendingRequests svc),
                   waiting := filter (\<lambda>w. fst w \<noteq> p) (waiting svc)\<rparr>)"
    using d a other
    by (auto simp: svcInv_def list_all_iff delete_conv' distinct_map_filter)
  then show ?thesis
    using Some by (simp add: timerFires_def Let_def del)
qed

lemma svcStep_inv:
  assumes "svcInv (fst s)"
  shows "svcInv (fst (svcStep e s))"
proof (cases s)
  case (Pair svc received)
  show ?thesis
  proof (cases e)
    case (CallGetUserById caller ident)
    then show ?thesis using assms Pair by (simp add: getUserById_inv)
  next
    case (TimerFires p)
    then show ?thesis
      using assms Pair timerFires_inv[of svc p] by (simp add: case_prod_beta)
  qed
qed

lemma svcRun_inv: "svcInv (fst (svcRun events (newUserService us)))"
proof -
  have "svcInv (fst s) \<Longrightarrow> svcInv (fst (foldl (\<lambda>s e. svcStep e s) s events))" for s
    by (induction events arbitrary: s) (simp_all add: svcStep_inv)
  then show ?thesis by (simp add: svcRun_def svcInv_new)
qed

lemma distinct_map_filter_le1:
  "distinct (map f xs) \<Longrightarrow> length (filter (\<lambda>x. f x = a) xs) \<le> 1"
proof (induction xs)
  case Nil
  then show ?case by simp
next
  case (Cons x xs)
  show ?case
  proof (cases "f x = a")
    case True
    have "f x \<notin> f ` set xs" using Cons.prems by simp
    then have "\<forall>y\<in>set xs. f y \<noteq> a" using True by (metis imageI)
    then have "filter (\<lambda>x. f x = a) xs = []" by (simp add: filter_empty_conv)
    then show ?thesis using True by simp
  next
    case False
    then show ?thesis using Cons by simp
  qed
qed

lemma svcInv_inFlight: "svcInv svc \<Longrightarrow> inFlight ident svc \<le> 1"
  unfolding inFlight_def svcInv_def by (intro distinct_map_filter_le1) simp

lemma processLoop_inv: "svcInv (userService app) \<Longrightarrow> svcInv (userService (processLoop app))"
  by (simp add: processLoop_def getUserById_inv split: list.splits)

lemma processQueue_inv: "svcInv (userService app) \<Longrightarrow> svcInv (userService (processQueue app))"
  by (simp add: processQueue_def processLoop_inv)

lemma enqueue_inv: "svcInv (userService app) \<Longrightarrow> svcInv (userService (enqueue h ident app))"
  by (simp add: enqueue_def processQueue_inv)

lemma getUserRoute_inv:
  "svcInv (userService app) \<Longrightarrow> svcInv (userService (getUserRoute h parsed now app))"
  by (auto simp: getUserRoute_def respond_def enqueue_inv split: option.splits prod.splits)

lemma afterPause_inv:
  "svcInv (userService app) \<Longrightarrow> svcInv (userService (afterPause h now app))"
  by (auto simp: afterPause_def respond_def enqueue_inv Let_def split: option.splits prod.splits)

lemma afterFetch_inv:
  "svcInv (userService app) \<Longrightarrow> svcInv (userService (afterFetch now app d))"
  by (auto simp: afterFetch_def respond_def Let_def
        intro!: processLoop_inv split: option.splits prod.splits fetchResult.splits)

lemma onTimer_inv:
  assumes "svcInv (userService app)"
  shows "svcInv (userService (onTimer p now app))"
proof -
  have f: "svcInv (userService a) \<Longrightarrow> svcInv (userService (foldl (afterFetch now) a ds))" for a ds
    by (induction ds arbitrary: a) (simp_all add: afterFetch_inv)
  show ?thesis
    using timerFires_inv[OF assms, of p]
    by (auto simp: onTimer_def split: prod.splits intro!: f)
qed

lemma appRun_inv: "svcInv (userService (appRun events (newApp us)))"
proof -
  have s: "svcInv (userService a) \<Longrightarrow> svcInv (userService (appStep a e))" for a e
    by (cases e) (simp_all add: getUserRoute_inv afterPause_inv onTimer_inv)
  have "svcInv (userService a) \<Longrightarrow> svcInv (userService (foldl appStep a events))" for a
    by (induction events arbitrary: a) (simp_all add: s)
  then show ?thesis by (simp add: appRun_def newApp_def svcInv_new)
qed

text \<open>
  Claim C5. Whatever calls of \<open>getUserById\<close> and timer callbacks have run, in whatever
  order, at most one Backing Store call for a given user id is in flight; the same holds in
  every state that the application reaches by requests, pauses and timers.
\<close>

theorem one_backing_store_call_per_key_in_flight:
  "inFlight ident (fst (svcRun events (newUserService us))) \<le> 1 \<and>
   inFlight ident (userService (appRun appEvents (newApp us))) \<le> 1"
  using svcInv_inFlight[OF svcRun_inv] svcInv_inFlight[OF appRun_inv] by blast

theorem one_backing_store_call_per_key_in_flight_witness:
  "inFlight 2 (fst (svcRun [CallGetUserById 1 2, CallGetUserById 2 2, CallGetUserById 3 2]
       (newUserService defaultUsers))) = 1 \<and>
   inFlight 2 (userService (appRun [Request 0 (Some 2) 0, Request 1 (Some 2) 0]
       (newApp defaultUsers))) = 1"
proof -
  have a: "0 < inFlight 2 (fst (svcRun [CallGetUserById 1 2, CallGetUserById 2 2,
       CallGetUserById 3 2] (newUserService defaultUsers)))"
    by code_simp
  have b: "0 < inFlight 2 (userService (appRun [Request 0 (Some 2) 0, Request 1 (Some 2) 0]
       (newApp defaultUsers)))"
    by code_simp
  show ?thesis
    using a b one_backing_store_call_per_key_in_flight [of 2
        "[CallGetUserById 1 2, CallGetUserById 2 2, CallGetUserById 3 2]" defaultUsers
        "[Request 0 (Some 2) 0, Request 1 (Some 2) 0]"]
    by linarith
qed

subsection \<open>The queue runs one fetch at a time\<close>

lemma processLoop_quiet:
  assumes "quiet (userService app)" and "processing app"
  shows "appInv (processLoop app)"
  using assms
  by (auto simp: processLoop_def appInv_def quiet_def oneLeader_def getUserById_def Let_def
        split: list.splits)

lemma enqueue_appInv:
  assumes "appInv app"
  shows "appInv (enqueue h ident app)"
proof (cases "processing app")
  case True
  then show ?thesis using assms by (simp add: enqueue_def processQueue_def appInv_def)
next
  case False
  then have "quiet (userService app)" using assms by (simp add: appInv_def)
  then have "appInv (processLoop (app\<lparr>queue := queue app @ [\<lparr>userId = ident, handler = h\<rparr>],
                 processing := True\<rparr>))"
    by (intro processLoop_quiet) simp_all
  then show ?thesis using False by (simp add: enqueue_def processQueue_def)
qed

lemma appInv_cong:
  "userService b = userService a \<Longrightarrow> queue b = queue a \<Longrightarrow> processing b = processing a \<Longrightarrow>
   appInv a \<Longrightarrow> appInv b"
  by (simp add: appInv_def)

lemma getUserRoute_appInv:
  assumes "appInv app"
  shows "appInv (getUserRoute h parsed now app)"
proof -
  have e: "appInv (enqueue h ident (app\<lparr>cacheManager := cm, handlers := hs\<rparr>))" for ident cm hs
    by (rule enqueue_appInv) (rule appInv_cong[OF _ _ _ assms], simp_all)
  show ?thesis
    by (auto simp: getUserRoute_def respond_def
          split: option.splits prod.splits intro!: e appInv_cong[OF _ _ _ assms])
qed

lemma afterPause_appInv:
  assumes "appInv app"
  shows "appInv (afterPause h now app)"
proof -
  have e: "appInv (enqueue h ident (app\<lparr>sleeping := sl, cacheManager := cm\<rparr>))" for ident cm sl
    by (rule enqueue_appInv) (rule appInv_cong[OF _ _ _ assms], simp_all)
  show ?thesis
    by (auto simp: afterPause_def respond_def Let_def
          split: option.splits prod.splits intro!: e assms appInv_cong[OF _ _ _ assms])
qed

lemma afterFetch_quiet:
  assumes "quiet (userService app)" and "processing app"
  shows "appInv (afterFetch now app d)"
  using assms
  by (auto simp: afterFetch_def respond_def Let_def intro!: processLoop_quiet
        split: option.splits prod.splits fetchResult.splits)

lemma onTimer_appInv:
  assumes "appInv app"
  shows "appInv (onTimer p now app)"
proof (cases "map_of (timers (userService app)) p")
  case None
  then show ?thesis using assms by (simp add: onTimer_def timerFires_def)
next
  case (Some ident)
  then have pr: "processing app" using assms by (auto simp: appInv_def quiet_def split: if_splits)
  then obtain h where
    l: "timers (userService app) = [(p, ident)]" "pendingRequests (userService app) = [(ident, p)]"
       "waiting (userService app) = [(p, h, Leader)]"
    using assms Some by (auto simp: appInv_def oneLeader_def split: if_splits)
  obtain res svc where
    t: "timerFires p (userService app) = ([(h, res)], svc)" and q: "quiet svc"
    using l by (simp add: timerFires_def Let_def quiet_def)
  have "appInv (afterFetch now (app\<lparr>userService := svc\<rparr>) (h, res))"
    using q pr by (intro afterFetch_quiet) simp_all
  then show ?thesis by (simp add: onTimer_def t)
qed

lemma appRun_appInv: "appInv (appRun events (newApp us))"
proof -
  have s: "appInv a \<Longrightarrow> appInv (appStep a e)" for a e
    by (cases e) (simp_all add: getUserRoute_appInv afterPause_appInv onTimer_appInv)
  have "appInv a \<Longrightarrow> appInv (foldl appStep a events)" for a
    by (induction events arbitrary: a) (simp_all add: s)
  moreover have "appInv (newApp us)"
    by (simp add: newApp_def appInv_def quiet_def newUserService_def)
  ultimately show ?thesis
    by (simp add: appRun_def)
qed

text \<open>Through the route at most one Backing Store call is in flight at all, and no call of
  \<open>getUserById\<close> ever joins a pending promise.\<close>

lemma app_never_joins:
  "length (timers (userService (appRun events (newApp us)))) \<le> 1 \<and>
   list_all (\<lambda>w. snd (snd w) = Leader) (waiting (userService (appRun events (newApp us))))"
  using appRun_appInv[of events us]
  by (auto simp: appInv_def oneLeader_def quiet_def split: if_splits)

subsection \<open>Not found\<close>

text \<open>
  Claim C3, on the code. Two overlapping calls of \<open>getUserById\<close> for an id that the store
  does not hold: the leader receives \<open>null\<close>, the joiner receives the rejection
  \<open>Error('User not found')\<close>.
\<close>

theorem joiner_receives_rejection:
  "snd (svcRun [CallGetUserById 1 99, CallGetUserById 2 99, TimerFires 0]
          (newUserService defaultUsers)) =
     [(1, Null), (2, Thrown ''User not found'')]"
  by code_simp

text \<open>The same for any two callers and any absent id.\<close>

lemma joiners_rejected_leader_null:
  assumes "map_of us ident = None"
  shows "snd (svcRun [CallGetUserById a ident, CallGetUserById b ident, TimerFires 0]
          (newUserService us)) = [(a, Null), (b, Thrown ''User not found'')]"
  using assms
  by (simp add: svcRun_def getUserById_def timerFires_def newUserService_def Let_def)

text \<open>Through the route both requests are answered 404, nothing is cached and no
  registration is left.\<close>

lemma not_found_through_route:
  "responses (appRun [Request 0 (Some 99) 0, Request 1 (Some 99) 0, Timer 0 200, Timer 1 400]
      (newApp defaultUsers)) = [(0, NotFound), (1, NotFound)] \<and>
   cache (cacheManager (appRun [Request 0 (Some 99) 0, Request 1 (Some 99) 0, Timer 0 200,
      Timer 1 400] (newApp defaultUsers))) = [] \<and>
   pendingRequests (userService (appRun [Request 0 (Some 99) 0, Request 1 (Some 99) 0,
      Timer 0 200, Timer 1 400] (newApp defaultUsers))) = []"
  by code_simp

subsection \<open>Simultaneous requests for one user\<close>

lemma onTimer_serving:
  assumes "serving ident u k n app" and "k < n"
  shows "if Suc k < n then serving ident u (Suc k) n (onTimer k now app)
         else served u n (onTimer k now app)"
proof -
  let ?svc = "userService app"
  have f: "map_of (users ?svc) ident = Some u" "fetches ?svc = Suc k"
    "timers ?svc = [(k, ident)]" "pendingRequests ?svc = [(ident, k)]"
    "waiting ?svc = [(k, k, Leader)]" "processing app"
    "responses app = map (okResponse u) [0..<k]"
    and qu: "queue app = map (\<lambda>h. \<lparr>userId = ident, handler = h\<rparr>) [Suc k..<n]"
    and hs0: "\<forall>h\<in>{k..<n}. \<exists>start. map_of (handlers app) h = Some (ident, start)"
    using assms(1) by (simp_all add: serving_def)
  have "k \<in> {k..<n}" using assms(2) by simp
  with hs0 obtain start where h: "map_of (handlers app) k = Some (ident, start)"
    by blast
  let ?svc' = "?svc\<lparr>timers := [], pendingRequests := [], waiting := []\<rparr>"
  have t: "timerFires k ?svc = ([(k, Value u)], ?svc')"
    using f by (simp add: timerFires_def Let_def)
  let ?app1 = "app\<lparr>userService := ?svc', handlers := AList.delete k (handlers app),
      cacheManager := recordResponseTime (now - start)
         (cacheSet (cacheKey ident) u now (cacheManager app)),
      responses := responses app @ [okResponse u k]\<rparr>"
  have o: "onTimer k now app = processLoop ?app1"
    by (simp add: onTimer_def t afterFetch_def h respond_def Let_def okResponse_def)
  have hs: "\<forall>h\<in>{Suc k..<n}. \<exists>start. map_of (AList.delete k (handlers app)) h = Some (ident, start)"
    using hs0 by (auto simp: delete_conv')
  show ?thesis
  proof (cases "Suc k < n")
    case True
    then have q: "queue app = \<lparr>userId = ident, handler = Suc k\<rparr> #
        map (\<lambda>h. \<lparr>userId = ident, handler = h\<rparr>) [Suc (Suc k)..<n]"
      unfolding qu by (simp add: upt_conv_Cons)
    have "serving ident u (Suc k) n (processLoop ?app1)"
      using f hs by (simp add: processLoop_def q serving_def getUserById_def Let_def)
    then show ?thesis using True o by simp
  next
    case False
    then have q: "queue app = []" and n: "n = Suc k"
      using assms(2) qu by simp_all
    have "served u n (processLoop ?app1)"
      using f by (simp add: processLoop_def q served_def n)
    then show ?thesis using False o by simp
  qed
qed

lemma timers_run:
  assumes "serving ident u k n app" and "k < n"
  shows "served u n (appRun (map (\<lambda>p. Timer p (t p)) [k..<n]) app)"
  using assms
proof (induction "n - k" arbitrary: k app)
  case 0
  then show ?case by simp
next
  case (Suc d)
  have u: "[k..<n] = k # [Suc k..<n]" using Suc.prems(2) by (simp add: upt_conv_Cons)
  have r: "appRun (map (\<lambda>p. Timer p (t p)) [k..<n]) app =
           appRun (map (\<lambda>p. Timer p (t p)) [Suc k..<n]) (onTimer k (t k) app)"
    unfolding u by (simp add: appRun_def)
  show ?case
  proof (cases "Suc k < n")
    case True
    then have "serving ident u (Suc k) n (onTimer k (t k) app)"
      using onTimer_serving[OF Suc.prems, of "t k"] by simp
    moreover have "d = n - Suc k" using Suc.hyps(2) by simp
    ultimately show ?thesis
      unfolding r using True by (intro Suc.hyps(1)) simp_all
  next
    case False
    then have "served u n (onTimer k (t k) app)"
      using onTimer_serving[OF Suc.prems, of "t k"] by simp
    moreover have e: "[Suc k..<n] = []" using False by simp
    ultimately show ?thesis unfolding r e by (simp add: appRun_def)
  qed
qed

lemma requests_run:
  assumes "map_of us ident = Some u"
  shows "serving ident u 0 (Suc m)
           (appRun (map (\<lambda>h. Request h (Some ident) now) [0..<Suc m]) (newApp us)) \<and>
         cache (cacheManager
           (appRun (map (\<lambda>h. Request h (Some ident) now) [0..<Suc m]) (newApp us))) = [] \<and>
         handlers (appRun (map (\<lambda>h. Request h (Some ident) now) [0..<Suc m]) (newApp us)) =
           map (\<lambda>h. (h, ident, now)) [0..<Suc m]"
proof (induction m)
  case 0
  show ?case
    using assms
    by (simp add: appRun_def newApp_def getUserRoute_def cacheGet_def cacheGetEntry_def
          lruGet_def newCacheManager_def cacheHas_def lruHas_def enqueue_def processQueue_def
          processLoop_def getUserById_def newUserService_def serving_def Let_def)
next
  case (Suc m)
  let ?app = "appRun (map (\<lambda>h. Request h (Some ident) now) [0..<Suc m]) (newApp us)"
  have r: "appRun (map (\<lambda>h. Request h (Some ident) now) [0..<Suc (Suc m)]) (newApp us) =
           getUserRoute (Suc m) (Some ident) now ?app"
    by (simp add: appRun_def)
  have s: "serving ident u 0 (Suc m) ?app" and c: "cache (cacheManager ?app) = []"
    and h: "handlers ?app = map (\<lambda>h. (h, ident, now)) [0..<Suc m]"
    using Suc.IH by simp_all
  have g: "getUserRoute (Suc m) (Some ident) now ?app =
      ?app\<lparr>cacheManager := (cacheManager ?app)\<lparr>misses := misses (cacheManager ?app) + 1\<rparr>,
            handlers := handlers ?app @ [(Suc m, ident, now)],
            queue := queue ?app @ [\<lparr>userId = ident, handler = Suc m\<rparr>]\<rparr>"
    using s c
    by (simp add: getUserRoute_def cacheGet_def cacheGetEntry_def lruGet_def cacheHas_def
          lruHas_def enqueue_def processQueue_def serving_def)
  have m: "\<forall>h\<in>{0..<Suc (Suc m)}. \<exists>start.
      map_of (handlers ?app @ [(Suc m, ident, now)]) h = Some (ident, start)"
    unfolding h
    by (auto simp: map_of_map_restrict restrict_map_def map_add_def less_Suc_eq
          split: option.splits)
  show ?case
    unfolding r g using s c h m
    by (simp add: serving_def)
qed

lemma simultaneous_served:
  assumes "map_of us ident = Some u" and "0 < n"
  shows "served u n (appRun (simultaneous n ident) (newApp us))"
proof -
  obtain m where n: "n = Suc m" using assms(2) by (cases n) simp_all
  let ?app = "appRun (map (\<lambda>h. Request h (Some ident) 0) [0..<n]) (newApp us)"
  have "serving ident u 0 n ?app"
    unfolding n using requests_run[OF assms(1), of m 0] by simp
  then have "served u n (appRun (map (\<lambda>p. Timer p (200 * (int p + 1))) [0..<n]) ?app)"
    using assms(2) by (rule timers_run)
  then show ?thesis by (simp add: simultaneous_def appRun_def)
qed

text \<open>
  Claim C4, on the code. \<open>n\<close> requests for one stored user arrive together at an empty
  cache and an idle service; then the timers fire. The service has started \<open>n\<close> Backing
  Store calls, one per request, and the \<open>n\<close> responses are identical.
\<close>

theorem simultaneous_requests_fetch_once_each:
  assumes "map_of us ident = Some u" and "0 < n"
  shows "fetches (userService (appRun (simultaneous n ident) (newApp us))) = n \<and>
         responses (appRun (simultaneous n ident) (newApp us)) =
           map (\<lambda>h. (h, Ok (jsonOfUserResponse (getUserResponse u)))) [0..<n]"
  using simultaneous_served[OF assms] by (simp add: served_def okResponse_def)

theorem simultaneous_requests_fetch_once_each_witness:
  "map_of defaultUsers 2 = Some (defaultUser 2 ''Jane Smith'' ''jane@example.com'') \<and>
   fetches (userService (appRun (simultaneous 2 2) (newApp defaultUsers))) = 2 \<and>
   responses (appRun (simultaneous 2 2) (newApp defaultUsers)) =
     [(0, Ok [(''id'', JNumber 2), (''name'', JString ''Jane Smith''),
              (''email'', JString ''jane@example.com''),
              (''createdAt'', JString ''2024-01-01T00:00:00.000Z'')]),
      (1, Ok [(''id'', JNumber 2), (''name'', JString ''Jane Smith''),
              (''email'', JString ''jane@example.com''),
              (''createdAt'', JString ''2024-01-01T00:00:00.000Z'')])]"
proof -
  have m: "map_of defaultUsers 2 = Some (defaultUser 2 ''Jane Smith'' ''jane@example.com'')"
    by (simp add: defaultUsers_def)
  have u: "[0..<2] = [0, Suc 0]" by (simp add: upt_conv_Cons)
  show ?thesis
    using m simultaneous_requests_fetch_once_each [OF m, of 2]
    by (simp add: u jsonOfUserResponse_def getUserResponse_def defaultUser_def
          optionalProperty_def)
qed

subsection \<open>Miss response and hit response\<close>

text \<open>
  Claim C2, on the code. User 1 is requested three times within 60 s. The first request
  misses the cache and is answered without the password; the second and the third hit the
  cache and are answered with the cached object, password hash included. The hit counter
  reads 0, 1, 2 after the three responses.
\<close>

theorem cache_hit_response_carries_password:
  "responses (appRun [Request 0 (Some 1) 0, Timer 0 200, Request 1 (Some 1) 1000,
       Request 2 (Some 1) 2000] (newApp defaultUsers)) =
     [(0, Ok [(''id'', JNumber 1), (''name'', JString ''John Doe''),
              (''email'', JString ''john@example.com''),
              (''createdAt'', JString ''2024-01-01T00:00:00.000Z'')]),
      (1, Ok [(''id'', JNumber 1), (''name'', JString ''John Doe''),
              (''email'', JString ''john@example.com''),
              (''password'', JString ''$2a$10$N9qo8uLOickgx2ZMRZoMye''),
              (''createdAt'', JString ''2024-01-01T00:00:00.000Z'')]),
      (2, Ok [(''id'', JNumber 1), (''name'', JString ''John Doe''),
              (''email'', JString ''john@example.com''),
              (''password'', JString ''$2a$10$N9qo8uLOickgx2ZMRZoMye''),
              (''createdAt'', JString ''2024-01-01T00:00:00.000Z'')])] \<and>
   map (\<lambda>events. hits (cacheManager (appRun events (newApp defaultUsers))))
     [[Request 0 (Some 1) 0, Timer 0 200],
      [Request 0 (Some 1) 0, Timer 0 200, Request 1 (Some 1) 1000],
      [Request 0 (Some 1) 0, Timer 0 200, Request 1 (Some 1) 1000, Request 2 (Some 1) 2000]] =
     [0, 1, 2]"
  by code_simp

end
